theory Spec2Isabelle
  imports Main "HOL-Library.Word" "HOL-Library.Monad_Syntax"
begin

unbundle bit_operations_syntax

section \<open>Data model of \<^verbatim>\<open>util::RedBlackTree\<close>\<close>

text \<open>
  The tree of \<^verbatim>\<open>src/RedBlackTree.h\<close> is a pointer structure: every node holds two child
  pointers, a parent pointer, a flag byte and a key. It is modelled over an explicit
  store. A pointer is an optional address (\<open>None\<close> is \<^verbatim>\<open>nullptr\<close>), the store maps the
  addresses of the live nodes to their contents, and \<^verbatim>\<open>delete\<close> removes an address from
  the store.

  Every operation returns an \<open>option\<close>: \<open>None\<close> stands for a run that does not return
  normally, that is a failed \<^verbatim>\<open>assert\<close>, the dereference of a null or dangling
  pointer, or a loop that does not terminate.

  The key type \<^verbatim>\<open>KeyT\<close> with its comparator \<^verbatim>\<open>LessT\<close> is a linear order, \<^verbatim>\<open>less(a, b)\<close>
  being \<open>a < b\<close>. The counter \<^verbatim>\<open>m_size\<close> is a \<^verbatim>\<open>std::size_t\<close>, an
  unsigned word of 64 bits: \<^verbatim>\<open>m_size += 1\<close> and \<^verbatim>\<open>m_size -= 1\<close> wrap around.
\<close>

type_synonym addr = nat
type_synonym ptr = "addr option"

record 'k node =
  m_left :: ptr
  m_right :: ptr
  m_parent :: ptr
  m_type :: "8 word"
  m_key :: 'k

type_synonym 'k heap = "addr \<Rightarrow> 'k node option"

record 'k rbt =
  heap :: "'k heap"
  m_root :: ptr
  m_size :: "64 word"

definition RED_INDEX :: nat where "RED_INDEX = 0"
definition LESS_INDEX :: nat where "LESS_INDEX = 1"
definition RED :: "8 word" where "RED = push_bit RED_INDEX 1"
definition LESS :: "8 word" where "LESS = push_bit LESS_INDEX 1"

text \<open>\<^verbatim>\<open>Node( KeyT const & key )\<close>: no children, no parent, flag byte 0.\<close>

definition Node :: "'k \<Rightarrow> 'k node" where
  "Node k = \<lparr>m_left = None, m_right = None, m_parent = None, m_type = 0, m_key = k\<rparr>"

text \<open>\<^verbatim>\<open>RedBlackTree()\<close>: the empty tree.\<close>

definition RedBlackTree :: "'k rbt" where
  "RedBlackTree = \<lparr>heap = (\<lambda>_. None), m_root = None, m_size = 0\<rparr>"

subsection \<open>The flag byte\<close>

definition flagRed :: "'k node \<Rightarrow> bool" where
  "flagRed n = (m_type n AND RED > 0)"

definition flagLess :: "'k node \<Rightarrow> bool" where
  "flagLess n = (m_type n AND LESS > 0)"

definition putRed :: "bool \<Rightarrow> 'k node \<Rightarrow> 'k node" where
  "putRed b n = n\<lparr>m_type := (m_type n AND NOT RED) OR push_bit RED_INDEX (of_bool b)\<rparr>"

definition putLess :: "bool \<Rightarrow> 'k node \<Rightarrow> 'k node" where
  "putLess b n = n\<lparr>m_type := (m_type n AND NOT LESS) OR push_bit LESS_INDEX (of_bool b)\<rparr>"

subsection \<open>Reading and writing a node through a pointer\<close>

definition rd :: "'k heap \<Rightarrow> addr \<Rightarrow> ('k node \<Rightarrow> 'a) \<Rightarrow> 'a option" where
  "rd h a f = (case h a of None \<Rightarrow> None | Some n \<Rightarrow> Some (f n))"

definition wr :: "addr \<Rightarrow> ('k node \<Rightarrow> 'k node) \<Rightarrow> 'k heap \<Rightarrow> 'k heap option" where
  "wr a f h = (case h a of None \<Rightarrow> None | Some n \<Rightarrow> Some (h(a \<mapsto> f n)))"

definition assert :: "bool \<Rightarrow> unit option" where
  "assert b = (if b then Some () else None)"

text \<open>\<^verbatim>\<open>new Node( key )\<close> at the address the allocator hands out, which is not live.\<close>

definition new_Node :: "addr \<Rightarrow> 'k \<Rightarrow> 'k heap \<Rightarrow> 'k heap option" where
  "new_Node a k h = (if h a = None then Some (h(a \<mapsto> Node k)) else None)"

text \<open>\<^verbatim>\<open>delete node\<close>.\<close>

definition delete_Node :: "addr \<Rightarrow> 'k heap \<Rightarrow> 'k heap option" where
  "delete_Node a h = (if h a = None then None else Some (h(a := None)))"

definition getLeftChild :: "'k heap \<Rightarrow> addr \<Rightarrow> ptr option" where
  "getLeftChild h a = rd h a m_left"

definition getRightChild :: "'k heap \<Rightarrow> addr \<Rightarrow> ptr option" where
  "getRightChild h a = rd h a m_right"

definition getChild :: "'k heap \<Rightarrow> addr \<Rightarrow> bool \<Rightarrow> ptr option" where
  "getChild h a left = (if left then rd h a m_left else rd h a m_right)"

definition getParent :: "'k heap \<Rightarrow> addr \<Rightarrow> ptr option" where
  "getParent h a = rd h a m_parent"

definition getKey :: "'k heap \<Rightarrow> addr \<Rightarrow> 'k option" where
  "getKey h a = rd h a m_key"

definition isRed :: "'k heap \<Rightarrow> addr \<Rightarrow> bool option" where
  "isRed h a = rd h a flagRed"

definition isBlack :: "'k heap \<Rightarrow> addr \<Rightarrow> bool option" where
  "isBlack h a = rd h a (\<lambda>n. \<not> flagRed n)"

definition isLessThanParent :: "'k heap \<Rightarrow> addr \<Rightarrow> bool option" where
  "isLessThanParent h a = rd h a flagLess"

definition isGreaterThanParent :: "'k heap \<Rightarrow> addr \<Rightarrow> bool option" where
  "isGreaterThanParent h a = rd h a (\<lambda>n. \<not> flagLess n)"

definition Node_setLeftChild :: "addr \<Rightarrow> ptr \<Rightarrow> 'k heap \<Rightarrow> 'k heap option" where
  "Node_setLeftChild a c h = wr a (\<lambda>n. n\<lparr>m_left := c\<rparr>) h"

definition Node_setRightChild :: "addr \<Rightarrow> ptr \<Rightarrow> 'k heap \<Rightarrow> 'k heap option" where
  "Node_setRightChild a c h = wr a (\<lambda>n. n\<lparr>m_right := c\<rparr>) h"

definition Node_setChild :: "addr \<Rightarrow> bool \<Rightarrow> ptr \<Rightarrow> 'k heap \<Rightarrow> 'k heap option" where
  "Node_setChild a left c h =
     (if left then wr a (\<lambda>n. n\<lparr>m_left := c\<rparr>) h else wr a (\<lambda>n. n\<lparr>m_right := c\<rparr>) h)"

definition setParent :: "addr \<Rightarrow> ptr \<Rightarrow> 'k heap \<Rightarrow> 'k heap option" where
  "setParent a p h = wr a (\<lambda>n. n\<lparr>m_parent := p\<rparr>) h"

definition setRed :: "addr \<Rightarrow> bool \<Rightarrow> 'k heap \<Rightarrow> 'k heap option" where
  "setRed a b h = wr a (putRed b) h"

definition setBlack :: "addr \<Rightarrow> 'k heap \<Rightarrow> 'k heap option" where
  "setBlack a h = wr a (putRed (\<not> True)) h"

definition setLessThanParent :: "addr \<Rightarrow> bool \<Rightarrow> 'k heap \<Rightarrow> 'k heap option" where
  "setLessThanParent a b h = wr a (putLess b) h"

definition setGreaterThanParent :: "addr \<Rightarrow> 'k heap \<Rightarrow> 'k heap option" where
  "setGreaterThanParent a h = wr a (putLess (\<not> True)) h"

subsection \<open>Navigation: \<^verbatim>\<open>Node::getPrevious\<close>, \<^verbatim>\<open>Node::getNext\<close>\<close>

text \<open>The inner loop \<^verbatim>\<open>while( node->m_children[ 1 ] != nullptr ) node = node->m_children[ 1 ]\<close>.\<close>

partial_function (option) rightmost :: "'k heap \<Rightarrow> addr \<Rightarrow> addr option" where
  "rightmost h node = do {
     r \<leftarrow> getRightChild h node;
     case r of None \<Rightarrow> Some node | Some c \<Rightarrow> rightmost h c
   }"

declare rightmost.simps [code]

partial_function (option) leftmost :: "'k heap \<Rightarrow> addr \<Rightarrow> addr option" where
  "leftmost h node = do {
     l \<leftarrow> getLeftChild h node;
     case l of None \<Rightarrow> Some node | Some c \<Rightarrow> leftmost h c
   }"

declare leftmost.simps [code]

text \<open>
  The upward loops; \<open>this\<close> is the node the call started from, returned when the loop
  reaches the root.
\<close>

partial_function (option) previous_up :: "'k heap \<Rightarrow> addr \<Rightarrow> addr \<Rightarrow> addr option" where
  "previous_up h this node = do {
     p \<leftarrow> getParent h node;
     case p of None \<Rightarrow> Some this
     | Some pa \<Rightarrow> do {
         g \<leftarrow> isGreaterThanParent h node;
         if g then Some pa else previous_up h this pa
       }
   }"

declare previous_up.simps [code]

partial_function (option) next_up :: "'k heap \<Rightarrow> addr \<Rightarrow> addr \<Rightarrow> addr option" where
  "next_up h this node = do {
     p \<leftarrow> getParent h node;
     case p of None \<Rightarrow> Some this
     | Some pa \<Rightarrow> do {
         l \<leftarrow> isLessThanParent h node;
         if l then Some pa else next_up h this pa
       }
   }"

declare next_up.simps [code]

definition getPrevious :: "'k heap \<Rightarrow> addr \<Rightarrow> addr option" where
  "getPrevious h this = do {
     l \<leftarrow> getLeftChild h this;
     case l of Some c \<Rightarrow> rightmost h c
     | None \<Rightarrow> previous_up h this this
   }"

definition getNext :: "'k heap \<Rightarrow> addr \<Rightarrow> addr option" where
  "getNext h this = do {
     r \<leftarrow> getRightChild h this;
     case r of Some c \<Rightarrow> leftmost h c
     | None \<Rightarrow> next_up h this this
   }"

subsection \<open>Lookup: \<^verbatim>\<open>find\<close>\<close>

partial_function (option) find_loop :: "'k::linorder heap \<Rightarrow> 'k \<Rightarrow> ptr \<Rightarrow> ptr option" where
  "find_loop h key node =
     (case node of None \<Rightarrow> Some None
      | Some a \<Rightarrow> do {
          k \<leftarrow> getKey h a;
          if key < k then do { l \<leftarrow> getLeftChild h a; find_loop h key l }
          else if k < key then do { r \<leftarrow> getRightChild h a; find_loop h key r }
          else Some (Some a)
        })"

declare find_loop.simps [code]

text \<open>\<^verbatim>\<open>Node * find( KeyT const & key )\<close>\<close>

definition find :: "'k::linorder \<Rightarrow> 'k rbt \<Rightarrow> ptr option" where
  "find key s = find_loop (heap s) key (m_root s)"

text \<open>
  \<^verbatim>\<open>bool find( KeyT const & key, Node * & nearest, bool & lessThan )\<close>: the result is the
  returned flag with the final values of the two reference arguments.
\<close>

partial_function (option) find_nearest_loop ::
    "'k::linorder heap \<Rightarrow> 'k \<Rightarrow> ptr \<Rightarrow> ptr \<Rightarrow> bool \<Rightarrow> (bool \<times> ptr \<times> bool) option" where
  "find_nearest_loop h key nextNode nearest lessThan' =
     (case nextNode of None \<Rightarrow> Some (False, nearest, lessThan')
      | Some a \<Rightarrow> do {
          k \<leftarrow> getKey h a;
          if key < k then do { l \<leftarrow> getLeftChild h a; find_nearest_loop h key l (Some a) True }
          else if k < key then do { r \<leftarrow> getRightChild h a; find_nearest_loop h key r (Some a) False }
          else Some (True, Some a, True)
        })"

declare find_nearest_loop.simps [code]

definition find_nearest :: "'k::linorder \<Rightarrow> bool \<Rightarrow> 'k rbt \<Rightarrow> (bool \<times> ptr \<times> bool) option" where
  "find_nearest key lessThan' s = find_nearest_loop (heap s) key (m_root s) None lessThan'"

subsection \<open>Insertion: the five local transformations\<close>

text \<open>\<open>nonnull p\<close> is the address a pointer holds; a null pointer cannot be dereferenced.\<close>

definition nonnull :: "ptr \<Rightarrow> addr option" where
  "nonnull p = p"

definition asserting :: "bool option \<Rightarrow> unit option" where
  "asserting c = do { b \<leftarrow> c; assert b }"

definition addTwoLeft :: "addr \<Rightarrow> 'k rbt \<Rightarrow> (ptr \<times> 'k rbt) option" where
  "addTwoLeft node s = do {
     let h = heap s;
     _ \<leftarrow> asserting (isBlack h node);
     _ \<leftarrow> asserting (isLessThanParent h node);
     rp \<leftarrow> getParent h node;
     right \<leftarrow> nonnull rp;
     rl \<leftarrow> getLeftChild h right;
     _ \<leftarrow> assert (rl = None);
     _ \<leftarrow> asserting (isBlack h right);
     h \<leftarrow> Node_setLeftChild right (Some node) h;
     h \<leftarrow> setLessThanParent node True h;
     h \<leftarrow> setRed node True h;
     Some (m_root s, s\<lparr>heap := h\<rparr>)
   }"

definition addTwoRight :: "addr \<Rightarrow> 'k rbt \<Rightarrow> (ptr \<times> 'k rbt) option" where
  "addTwoRight node s = do {
     let h = heap s;
     _ \<leftarrow> asserting (isBlack h node);
     _ \<leftarrow> asserting (isGreaterThanParent h node);
     lp \<leftarrow> getParent h node;
     left \<leftarrow> nonnull lp;
     lr \<leftarrow> getRightChild h left;
     _ \<leftarrow> assert (lr = None);
     _ \<leftarrow> asserting (isBlack h left);
     child \<leftarrow> getLeftChild h node;
     h \<leftarrow> Node_setRightChild left child h;
     h \<leftarrow> (case child of None \<Rightarrow> Some h
          | Some c \<Rightarrow> do { h \<leftarrow> setParent c (Some left) h; setGreaterThanParent c h });
     parent \<leftarrow> getParent h left;
     lessThan' \<leftarrow> isLessThanParent h left;
     (h, root) \<leftarrow> (case parent of
          Some p \<Rightarrow> do { h \<leftarrow> Node_setChild p lessThan' (Some node) h; Some (h, m_root s) }
        | None \<Rightarrow> Some (h, Some node));
     h \<leftarrow> setParent node parent h;
     h \<leftarrow> setLessThanParent node lessThan' h;
     h \<leftarrow> Node_setLeftChild node (Some left) h;
     h \<leftarrow> setParent left (Some node) h;
     h \<leftarrow> setLessThanParent left True h;
     h \<leftarrow> setRed left True h;
     Some (root, s\<lparr>heap := h, m_root := root\<rparr>)
   }"

definition addThreeLeft :: "addr \<Rightarrow> 'k rbt \<Rightarrow> (ptr \<times> 'k rbt) option" where
  "addThreeLeft node s = do {
     let h = heap s;
     _ \<leftarrow> asserting (isBlack h node);
     _ \<leftarrow> asserting (isLessThanParent h node);
     mp \<leftarrow> getParent h node;
     middle \<leftarrow> nonnull mp;
     ml \<leftarrow> getLeftChild h middle;
     _ \<leftarrow> assert (ml = None);
     _ \<leftarrow> asserting (isLessThanParent h middle);
     _ \<leftarrow> asserting (isRed h middle);
     rp \<leftarrow> getParent h middle;
     right \<leftarrow> nonnull rp;
     _ \<leftarrow> asserting (isBlack h right);
     parent \<leftarrow> getParent h right;
     lessThan' \<leftarrow> isLessThanParent h right;
     (h, root) \<leftarrow> (case parent of
          Some p \<Rightarrow> do { h \<leftarrow> Node_setChild p lessThan' None h; Some (h, m_root s) }
        | None \<Rightarrow> Some (h, Some middle));
     h \<leftarrow> setParent middle parent h;
     h \<leftarrow> setLessThanParent middle lessThan' h;
     child \<leftarrow> getRightChild h middle;
     h \<leftarrow> (case child of None \<Rightarrow> Some h
          | Some c \<Rightarrow> do { h \<leftarrow> setParent c (Some right) h; setLessThanParent c True h });
     h \<leftarrow> Node_setLeftChild right child h;
     h \<leftarrow> setParent right (Some middle) h;
     h \<leftarrow> setGreaterThanParent right h;
     h \<leftarrow> Node_setRightChild middle (Some right) h;
     h \<leftarrow> Node_setLeftChild middle (Some node) h;
     h \<leftarrow> setBlack middle h;
     Some (Some middle, s\<lparr>heap := h, m_root := root\<rparr>)
   }"

definition addThreeMiddle :: "addr \<Rightarrow> 'k rbt \<Rightarrow> (ptr \<times> 'k rbt) option" where
  "addThreeMiddle node s = do {
     let h = heap s;
     _ \<leftarrow> asserting (isBlack h node);
     _ \<leftarrow> asserting (isGreaterThanParent h node);
     lp \<leftarrow> getParent h node;
     left \<leftarrow> nonnull lp;
     lr \<leftarrow> getRightChild h left;
     _ \<leftarrow> assert (lr = None);
     _ \<leftarrow> asserting (isLessThanParent h left);
     _ \<leftarrow> asserting (isRed h left);
     rp \<leftarrow> getParent h left;
     right \<leftarrow> nonnull rp;
     _ \<leftarrow> asserting (isBlack h right);
     parent \<leftarrow> getParent h right;
     lessThan' \<leftarrow> isLessThanParent h right;
     (h, root) \<leftarrow> (case parent of
          Some p \<Rightarrow> do { h \<leftarrow> Node_setChild p lessThan' None h; Some (h, m_root s) }
        | None \<Rightarrow> Some (h, Some node));
     h \<leftarrow> setParent node parent h;
     h \<leftarrow> setLessThanParent node lessThan' h;
     child \<leftarrow> getLeftChild h node;
     h \<leftarrow> (case child of None \<Rightarrow> Some h
          | Some c \<Rightarrow> do { h \<leftarrow> setParent c (Some left) h; setGreaterThanParent c h });
     h \<leftarrow> Node_setRightChild left child h;
     child \<leftarrow> getRightChild h node;
     h \<leftarrow> (case child of None \<Rightarrow> Some h
          | Some c \<Rightarrow> do { h \<leftarrow> setParent c (Some right) h; setLessThanParent c True h });
     h \<leftarrow> Node_setLeftChild right child h;
     h \<leftarrow> Node_setLeftChild node (Some left) h;
     h \<leftarrow> Node_setRightChild node (Some right) h;
     h \<leftarrow> setParent left (Some node) h;
     h \<leftarrow> setParent right (Some node) h;
     h \<leftarrow> setLessThanParent left True h;
     h \<leftarrow> setGreaterThanParent right h;
     h \<leftarrow> setBlack left h;
     Some (Some node, s\<lparr>heap := h, m_root := root\<rparr>)
   }"

definition addThreeRight :: "addr \<Rightarrow> 'k rbt \<Rightarrow> (ptr \<times> 'k rbt) option" where
  "addThreeRight node s = do {
     let h = heap s;
     _ \<leftarrow> asserting (isBlack h node);
     _ \<leftarrow> asserting (isGreaterThanParent h node);
     mp \<leftarrow> getParent h node;
     middle \<leftarrow> nonnull mp;
     _ \<leftarrow> asserting (isBlack h middle);
     mr \<leftarrow> getRightChild h middle;
     _ \<leftarrow> assert (mr = None);
     lp \<leftarrow> getLeftChild h middle;
     left \<leftarrow> nonnull lp;
     _ \<leftarrow> asserting (isRed h left);
     _ \<leftarrow> asserting (isLessThanParent h left);
     h \<leftarrow> setBlack left h;
     h \<leftarrow> Node_setRightChild middle (Some node) h;
     parent \<leftarrow> getParent h middle;
     lessThan' \<leftarrow> isLessThanParent h middle;
     (h, root) \<leftarrow> (case parent of
          Some p \<Rightarrow> do { h \<leftarrow> Node_setChild p lessThan' None h; Some (h, m_root s) }
        | None \<Rightarrow> Some (h, Some middle));
     Some (Some middle, s\<lparr>heap := h, m_root := root\<rparr>)
   }"

text \<open>\<^verbatim>\<open>Node * add( Node * node )\<close>: one step of the upward walk.\<close>

definition add_node :: "addr \<Rightarrow> 'k rbt \<Rightarrow> (ptr \<times> 'k rbt) option" where
  "add_node node s = do {
     let h = heap s;
     tp \<leftarrow> getParent h node;
     target \<leftarrow> nonnull tp;
     tb \<leftarrow> isBlack h target;
     nl \<leftarrow> isLessThanParent h node;
     if tb then
       if nl then addTwoLeft node s
       else do {
         left \<leftarrow> getLeftChild h target;
         lb \<leftarrow> (case left of None \<Rightarrow> Some True | Some l \<Rightarrow> isBlack h l);
         if lb then addTwoRight node s else addThreeRight node s
       }
     else
       if nl then addThreeLeft node s else addThreeMiddle node s
   }"

text \<open>\<^verbatim>\<open>while( freeNode != m_root ) freeNode = add( freeNode )\<close>\<close>

partial_function (option) add_loop :: "ptr \<Rightarrow> 'k rbt \<Rightarrow> 'k rbt option" where
  "add_loop freeNode s =
     (if freeNode \<noteq> m_root s then do {
        node \<leftarrow> nonnull freeNode;
        (freeNode', s') \<leftarrow> add_node node s;
        add_loop freeNode' s'
      } else Some s)"

declare add_loop.simps [code]

text \<open>
  \<^verbatim>\<open>bool add( KeyT const & key, Node * & node )\<close>. The argument \<open>new\<close> is the address
  that \<^verbatim>\<open>new Node( key )\<close> returns if the call allocates. The result is the returned flag
  (\<open>inserted\<close>), the final value of the reference argument \<open>node\<close>, and the tree.
\<close>

definition add :: "'k::linorder \<Rightarrow> addr \<Rightarrow> 'k rbt \<Rightarrow> (bool \<times> ptr \<times> 'k rbt) option" where
  "add key new s =
     (if m_root s = None then do {
        h \<leftarrow> new_Node new key (heap s);
        Some (True, Some new, s\<lparr>heap := h, m_root := Some new, m_size := 1\<rparr>)
      } else do {
        (found, nearest, lessThan') \<leftarrow> find_nearest key False s;
        if found then Some (False, nearest, s)
        else do {
          h \<leftarrow> new_Node new key (heap s);
          h \<leftarrow> setParent new nearest h;
          h \<leftarrow> setLessThanParent new lessThan' h;
          s' \<leftarrow> add_loop (Some new) (s\<lparr>heap := h, m_size := m_size s + 1\<rparr>);
          Some (True, Some new, s')
        }
      })"

subsection \<open>Removal: helpers\<close>

partial_function (option) getNextLargestParent :: "'k heap \<Rightarrow> addr \<Rightarrow> ptr option" where
  "getNextLargestParent h node = do {
     next \<leftarrow> getParent h node;
     case next of None \<Rightarrow> Some None
     | Some p \<Rightarrow> do {
         l \<leftarrow> isLessThanParent h node;
         if l then Some next else getNextLargestParent h p
       }
   }"

declare getNextLargestParent.simps [code]

text \<open>
  \<^verbatim>\<open>getNextLargestChild\<close>: null without a right child, otherwise the do-while loop that
  follows left children from the right child, which is the loop \<open>leftmost\<close>.
\<close>

definition getNextLargestChild :: "'k heap \<Rightarrow> addr \<Rightarrow> ptr option" where
  "getNextLargestChild h node = do {
     next \<leftarrow> getRightChild h node;
     case next of None \<Rightarrow> Some None
     | Some c \<Rightarrow> do { n \<leftarrow> leftmost h c; Some (Some n) }
   }"

definition swap :: "addr \<Rightarrow> addr \<Rightarrow> 'k heap \<Rightarrow> 'k heap option" where
  "swap first second h = do {
     node1 \<leftarrow> getLeftChild h first;
     node2 \<leftarrow> getLeftChild h second;
     h \<leftarrow> (case node1 of None \<Rightarrow> Some h | Some n1 \<Rightarrow> setParent n1 (Some second) h);
     h \<leftarrow> (case node2 of None \<Rightarrow> Some h | Some n2 \<Rightarrow> setParent n2 (Some first) h);
     h \<leftarrow> Node_setLeftChild first node2 h;
     h \<leftarrow> Node_setLeftChild second node1 h;
     node1 \<leftarrow> getRightChild h first;
     node2 \<leftarrow> getRightChild h second;
     h \<leftarrow> (case node1 of None \<Rightarrow> Some h | Some n1 \<Rightarrow> setParent n1 (Some second) h);
     h \<leftarrow> (case node2 of None \<Rightarrow> Some h | Some n2 \<Rightarrow> setParent n2 (Some first) h);
     h \<leftarrow> Node_setRightChild first node2 h;
     h \<leftarrow> Node_setRightChild second node1 h;
     node1 \<leftarrow> getParent h first;
     node2 \<leftarrow> getParent h second;
     h \<leftarrow> (case node1 of None \<Rightarrow> Some h
          | Some n1 \<Rightarrow> do { l \<leftarrow> isLessThanParent h first; Node_setChild n1 l (Some second) h });
     h \<leftarrow> (case node2 of None \<Rightarrow> Some h
          | Some n2 \<Rightarrow> do { l \<leftarrow> isLessThanParent h second; Node_setChild n2 l (Some first) h });
     h \<leftarrow> setParent first node2 h;
     h \<leftarrow> setParent second node1 h;
     flag \<leftarrow> isRed h first;
     sr \<leftarrow> isRed h second;
     h \<leftarrow> setRed first sr h;
     h \<leftarrow> setRed second flag h;
     flag \<leftarrow> isLessThanParent h first;
     sl \<leftarrow> isLessThanParent h second;
     h \<leftarrow> setLessThanParent first sl h;
     h \<leftarrow> setLessThanParent second flag h;
     Some h
   }"

text \<open>
  The tree-level \<^verbatim>\<open>setChild( parent, child, lessThan )\<close>, \<^verbatim>\<open>setLeftChild( parent, child )\<close>
  and \<^verbatim>\<open>setRightChild( parent, child )\<close>, which also set the child's back pointer and
  relation bit.
\<close>

definition setChild :: "addr \<Rightarrow> ptr \<Rightarrow> bool \<Rightarrow> 'k heap \<Rightarrow> 'k heap option" where
  "setChild parent child lessThan' h = do {
     h \<leftarrow> (case child of None \<Rightarrow> Some h
          | Some c \<Rightarrow> do { h \<leftarrow> setParent c (Some parent) h; setLessThanParent c lessThan' h });
     Node_setChild parent lessThan' child h
   }"

definition setLeftChild :: "addr \<Rightarrow> ptr \<Rightarrow> 'k heap \<Rightarrow> 'k heap option" where
  "setLeftChild parent child h = do {
     h \<leftarrow> (case child of None \<Rightarrow> Some h
          | Some c \<Rightarrow> do { h \<leftarrow> setParent c (Some parent) h; setLessThanParent c True h });
     Node_setLeftChild parent child h
   }"

definition setRightChild :: "addr \<Rightarrow> ptr \<Rightarrow> 'k heap \<Rightarrow> 'k heap option" where
  "setRightChild parent child h = do {
     h \<leftarrow> (case child of None \<Rightarrow> Some h
          | Some c \<Rightarrow> do { h \<leftarrow> setParent c (Some parent) h; setGreaterThanParent c h });
     Node_setRightChild parent child h
   }"

text \<open>The test \<^verbatim>\<open>p != nullptr && p->isRed()\<close>.\<close>

definition nonnull_and_red :: "'k heap \<Rightarrow> ptr \<Rightarrow> bool option" where
  "nonnull_and_red h p = (case p of None \<Rightarrow> Some False | Some a \<Rightarrow> isRed h a)"

subsection \<open>Removal: the merge and borrow transformations\<close>

definition remTwoLeft_Two :: "addr \<Rightarrow> 'k rbt \<Rightarrow> (ptr \<times> 'k rbt) option" where
  "remTwoLeft_Two node s = do {
     let h = heap s;
     ap \<leftarrow> getParent h node;
     a \<leftarrow> nonnull ap;
     _ \<leftarrow> asserting (isBlack h a);
     bp \<leftarrow> getRightChild h a;
     b \<leftarrow> nonnull bp;
     _ \<leftarrow> asserting (isBlack h b);
     x \<leftarrow> getParent h a;
     xLess \<leftarrow> isLessThanParent h a;
     nl \<leftarrow> getLeftChild h node;
     h \<leftarrow> setLeftChild a nl h;
     bl \<leftarrow> getLeftChild h b;
     h \<leftarrow> setRightChild a bl h;
     h \<leftarrow> setLeftChild b (Some a) h;
     h \<leftarrow> setRed a True h;
     case x of
       Some _ \<Rightarrow> do {
         h \<leftarrow> Node_setLeftChild node (Some b) h;
         h \<leftarrow> setParent node x h;
         h \<leftarrow> setLessThanParent node xLess h;
         Some (Some node, s\<lparr>heap := h\<rparr>)
       }
     | None \<Rightarrow> do {
         h \<leftarrow> setParent b None h;
         h \<leftarrow> delete_Node node h;
         Some (Some b, s\<lparr>heap := h, m_root := Some b\<rparr>)
       }
   }"

definition remTwoLeft_Three :: "addr \<Rightarrow> 'k rbt \<Rightarrow> (ptr \<times> 'k rbt) option" where
  "remTwoLeft_Three node s = do {
     let h = heap s;
     ap \<leftarrow> getParent h node;
     a \<leftarrow> nonnull ap;
     _ \<leftarrow> asserting (isBlack h a);
     cp \<leftarrow> getRightChild h a;
     c \<leftarrow> nonnull cp;
     _ \<leftarrow> asserting (isBlack h c);
     bp \<leftarrow> getLeftChild h c;
     b \<leftarrow> nonnull bp;
     _ \<leftarrow> asserting (isRed h b);
     x \<leftarrow> getParent h a;
     xLess \<leftarrow> isLessThanParent h a;
     nl \<leftarrow> getLeftChild h node;
     h \<leftarrow> setLeftChild a nl h;
     bl \<leftarrow> getLeftChild h b;
     h \<leftarrow> setRightChild a bl h;
     br \<leftarrow> getRightChild h b;
     h \<leftarrow> setLeftChild c br h;
     h \<leftarrow> setLeftChild b (Some a) h;
     h \<leftarrow> setRightChild b (Some c) h;
     h \<leftarrow> setBlack b h;
     (h, root) \<leftarrow> (case x of
          Some xa \<Rightarrow> do { h \<leftarrow> setChild xa (Some b) xLess h; Some (h, m_root s) }
        | None \<Rightarrow> do { h \<leftarrow> setParent b None h; Some (h, Some b) });
     h \<leftarrow> delete_Node node h;
     Some (root, s\<lparr>heap := h, m_root := root\<rparr>)
   }"

definition remTwoLeft :: "addr \<Rightarrow> 'k rbt \<Rightarrow> (ptr \<times> 'k rbt) option" where
  "remTwoLeft node s = do {
     let h = heap s;
     pp \<leftarrow> getParent h node;
     parent \<leftarrow> nonnull pp;
     sp \<leftarrow> getRightChild h parent;
     sibling \<leftarrow> nonnull sp;
     nephew \<leftarrow> getLeftChild h sibling;
     three \<leftarrow> nonnull_and_red h nephew;
     if three then remTwoLeft_Three node s else remTwoLeft_Two node s
   }"

definition remTwoRight_Two :: "addr \<Rightarrow> 'k rbt \<Rightarrow> (ptr \<times> 'k rbt) option" where
  "remTwoRight_Two node s = do {
     let h = heap s;
     ap \<leftarrow> getParent h node;
     a \<leftarrow> nonnull ap;
     _ \<leftarrow> asserting (isBlack h a);
     bp \<leftarrow> getLeftChild h a;
     b \<leftarrow> nonnull bp;
     _ \<leftarrow> asserting (isBlack h b);
     x \<leftarrow> getParent h a;
     xLess \<leftarrow> isLessThanParent h a;
     nl \<leftarrow> getLeftChild h node;
     h \<leftarrow> setRightChild a nl h;
     h \<leftarrow> setRed b True h;
     case x of
       Some _ \<Rightarrow> do {
         h \<leftarrow> Node_setLeftChild node (Some a) h;
         h \<leftarrow> setParent node x h;
         h \<leftarrow> setLessThanParent node xLess h;
         Some (Some node, s\<lparr>heap := h\<rparr>)
       }
     | None \<Rightarrow> do {
         h \<leftarrow> setParent a None h;
         h \<leftarrow> delete_Node node h;
         Some (Some a, s\<lparr>heap := h, m_root := Some a\<rparr>)
       }
   }"

definition remTwoRight_Three :: "addr \<Rightarrow> 'k rbt \<Rightarrow> (ptr \<times> 'k rbt) option" where
  "remTwoRight_Three node s = do {
     let h = heap s;
     ap \<leftarrow> getParent h node;
     a \<leftarrow> nonnull ap;
     _ \<leftarrow> asserting (isBlack h a);
     cp \<leftarrow> getLeftChild h a;
     c \<leftarrow> nonnull cp;
     _ \<leftarrow> asserting (isBlack h c);
     bp \<leftarrow> getLeftChild h c;
     b \<leftarrow> nonnull bp;
     _ \<leftarrow> asserting (isRed h b);
     x \<leftarrow> getParent h a;
     xLess \<leftarrow> isLessThanParent h a;
     nl \<leftarrow> getLeftChild h node;
     h \<leftarrow> setRightChild a nl h;
     cr \<leftarrow> getRightChild h c;
     h \<leftarrow> setLeftChild a cr h;
     h \<leftarrow> setRightChild c (Some a) h;
     h \<leftarrow> setBlack b h;
     (h, root) \<leftarrow> (case x of
          Some xa \<Rightarrow> do { h \<leftarrow> setChild xa (Some c) xLess h; Some (h, m_root s) }
        | None \<Rightarrow> do { h \<leftarrow> setParent c None h; Some (h, Some c) });
     h \<leftarrow> delete_Node node h;
     Some (root, s\<lparr>heap := h, m_root := root\<rparr>)
   }"

definition remTwoRight :: "addr \<Rightarrow> 'k rbt \<Rightarrow> (ptr \<times> 'k rbt) option" where
  "remTwoRight node s = do {
     let h = heap s;
     pp \<leftarrow> getParent h node;
     parent \<leftarrow> nonnull pp;
     sp \<leftarrow> getLeftChild h parent;
     sibling \<leftarrow> nonnull sp;
     nephew \<leftarrow> getLeftChild h sibling;
     three \<leftarrow> nonnull_and_red h nephew;
     if three then remTwoRight_Three node s else remTwoRight_Two node s
   }"

definition remThreeLeft_Two_X :: "addr \<Rightarrow> 'k rbt \<Rightarrow> (ptr \<times> 'k rbt) option" where
  "remThreeLeft_Two_X node s = do {
     let h = heap s;
     ap \<leftarrow> getParent h node;
     a \<leftarrow> nonnull ap;
     _ \<leftarrow> asserting (isRed h a);
     bp \<leftarrow> getParent h a;
     b \<leftarrow> nonnull bp;
     _ \<leftarrow> asserting (isBlack h b);
     cp \<leftarrow> getRightChild h a;
     c \<leftarrow> nonnull cp;
     _ \<leftarrow> asserting (isBlack h c);
     nl \<leftarrow> getLeftChild h node;
     h \<leftarrow> setLeftChild a nl h;
     cl \<leftarrow> getLeftChild h c;
     h \<leftarrow> setRightChild a cl h;
     h \<leftarrow> setLeftChild c (Some a) h;
     h \<leftarrow> setLeftChild b (Some c) h;
     h \<leftarrow> delete_Node node h;
     Some (m_root s, s\<lparr>heap := h\<rparr>)
   }"

definition remThreeLeft_Three_X :: "addr \<Rightarrow> 'k rbt \<Rightarrow> (ptr \<times> 'k rbt) option" where
  "remThreeLeft_Three_X node s = do {
     let h = heap s;
     ap \<leftarrow> getParent h node;
     a \<leftarrow> nonnull ap;
     _ \<leftarrow> asserting (isRed h a);
     bp \<leftarrow> getParent h a;
     b \<leftarrow> nonnull bp;
     _ \<leftarrow> asserting (isBlack h b);
     dp \<leftarrow> getRightChild h a;
     d \<leftarrow> nonnull dp;
     _ \<leftarrow> asserting (isBlack h d);
     cp \<leftarrow> getLeftChild h d;
     c \<leftarrow> nonnull cp;
     _ \<leftarrow> asserting (isRed h c);
     nl \<leftarrow> getLeftChild h node;
     h \<leftarrow> setLeftChild a nl h;
     cl \<leftarrow> getLeftChild h c;
     h \<leftarrow> setRightChild a cl h;
     cr \<leftarrow> getRightChild h c;
     h \<leftarrow> setLeftChild d cr h;
     h \<leftarrow> setLeftChild c (Some a) h;
     h \<leftarrow> setRightChild c (Some d) h;
     h \<leftarrow> setLeftChild b (Some c) h;
     h \<leftarrow> setBlack a h;
     h \<leftarrow> delete_Node node h;
     Some (m_root s, s\<lparr>heap := h\<rparr>)
   }"

definition remThreeLeft :: "addr \<Rightarrow> 'k rbt \<Rightarrow> (ptr \<times> 'k rbt) option" where
  "remThreeLeft node s = do {
     let h = heap s;
     ap \<leftarrow> getParent h node;
     a \<leftarrow> nonnull ap;
     _ \<leftarrow> asserting (isRed h a);
     dp \<leftarrow> getRightChild h a;
     d \<leftarrow> nonnull dp;
     _ \<leftarrow> asserting (isBlack h d);
     c \<leftarrow> getLeftChild h d;
     three \<leftarrow> nonnull_and_red h c;
     if three then remThreeLeft_Three_X node s else remThreeLeft_Two_X node s
   }"

definition remThreeMiddle_Two_X :: "addr \<Rightarrow> 'k rbt \<Rightarrow> (ptr \<times> 'k rbt) option" where
  "remThreeMiddle_Two_X node s = do {
     let h = heap s;
     ap \<leftarrow> getParent h node;
     a \<leftarrow> nonnull ap;
     _ \<leftarrow> asserting (isRed h a);
     bp \<leftarrow> getParent h a;
     b \<leftarrow> nonnull bp;
     _ \<leftarrow> asserting (isBlack h b);
     cp \<leftarrow> getLeftChild h a;
     c \<leftarrow> nonnull cp;
     _ \<leftarrow> asserting (isBlack h c);
     nl \<leftarrow> getLeftChild h node;
     h \<leftarrow> setRightChild a nl h;
     h \<leftarrow> setBlack a h;
     h \<leftarrow> setRed c True h;
     h \<leftarrow> delete_Node node h;
     Some (m_root s, s\<lparr>heap := h\<rparr>)
   }"

definition remThreeMiddle_Three_X :: "addr \<Rightarrow> 'k rbt \<Rightarrow> (ptr \<times> 'k rbt) option" where
  "remThreeMiddle_Three_X node s = do {
     let h = heap s;
     ap \<leftarrow> getParent h node;
     a \<leftarrow> nonnull ap;
     _ \<leftarrow> asserting (isRed h a);
     bp \<leftarrow> getParent h a;
     b \<leftarrow> nonnull bp;
     _ \<leftarrow> asserting (isBlack h b);
     dp \<leftarrow> getLeftChild h a;
     d \<leftarrow> nonnull dp;
     _ \<leftarrow> asserting (isBlack h d);
     cp \<leftarrow> getLeftChild h d;
     c \<leftarrow> nonnull cp;
     _ \<leftarrow> asserting (isRed h c);
     dr \<leftarrow> getRightChild h d;
     h \<leftarrow> setLeftChild a dr h;
     nl \<leftarrow> getLeftChild h node;
     h \<leftarrow> setRightChild a nl h;
     h \<leftarrow> setRightChild d (Some a) h;
     h \<leftarrow> setLeftChild b (Some d) h;
     h \<leftarrow> setBlack a h;
     h \<leftarrow> setBlack c h;
     h \<leftarrow> setRed d True h;
     h \<leftarrow> delete_Node node h;
     Some (m_root s, s\<lparr>heap := h\<rparr>)
   }"

definition remThreeMiddle :: "addr \<Rightarrow> 'k rbt \<Rightarrow> (ptr \<times> 'k rbt) option" where
  "remThreeMiddle node s = do {
     let h = heap s;
     ap \<leftarrow> getParent h node;
     a \<leftarrow> nonnull ap;
     _ \<leftarrow> asserting (isRed h a);
     dp \<leftarrow> getLeftChild h a;
     d \<leftarrow> nonnull dp;
     _ \<leftarrow> asserting (isBlack h d);
     c \<leftarrow> getLeftChild h d;
     three \<leftarrow> nonnull_and_red h c;
     if three then remThreeMiddle_Three_X node s else remThreeMiddle_Two_X node s
   }"

definition remThreeRight_X_Two :: "addr \<Rightarrow> 'k rbt \<Rightarrow> (ptr \<times> 'k rbt) option" where
  "remThreeRight_X_Two node s = do {
     let h = heap s;
     bp \<leftarrow> getParent h node;
     b \<leftarrow> nonnull bp;
     _ \<leftarrow> asserting (isBlack h b);
     ap \<leftarrow> getLeftChild h b;
     a \<leftarrow> nonnull ap;
     _ \<leftarrow> asserting (isRed h a);
     cp \<leftarrow> getRightChild h a;
     c \<leftarrow> nonnull cp;
     _ \<leftarrow> asserting (isBlack h c);
     cl \<leftarrow> getLeftChild h c;
     _ \<leftarrow> asserting (case cl of None \<Rightarrow> Some True | Some l \<Rightarrow> isBlack h l);
     x \<leftarrow> getParent h b;
     xLess \<leftarrow> isLessThanParent h b;
     h \<leftarrow> setLeftChild b (Some c) h;
     nl \<leftarrow> getLeftChild h node;
     h \<leftarrow> setRightChild b nl h;
     h \<leftarrow> setRightChild a (Some b) h;
     h \<leftarrow> setBlack a h;
     h \<leftarrow> setRed c True h;
     (h, root) \<leftarrow> (case x of
          Some xa \<Rightarrow> do { h \<leftarrow> setChild xa (Some a) xLess h; Some (h, m_root s) }
        | None \<Rightarrow> do { h \<leftarrow> setParent a None h; Some (h, Some a) });
     h \<leftarrow> delete_Node node h;
     Some (root, s\<lparr>heap := h, m_root := root\<rparr>)
   }"

definition remThreeRight_X_Three :: "addr \<Rightarrow> 'k rbt \<Rightarrow> (ptr \<times> 'k rbt) option" where
  "remThreeRight_X_Three node s = do {
     let h = heap s;
     bp \<leftarrow> getParent h node;
     b \<leftarrow> nonnull bp;
     _ \<leftarrow> asserting (isBlack h b);
     ap \<leftarrow> getLeftChild h b;
     a \<leftarrow> nonnull ap;
     _ \<leftarrow> asserting (isRed h a);
     dp \<leftarrow> getRightChild h a;
     d \<leftarrow> nonnull dp;
     _ \<leftarrow> asserting (isBlack h d);
     cp \<leftarrow> getLeftChild h d;
     c \<leftarrow> nonnull cp;
     _ \<leftarrow> asserting (isRed h c);
     x \<leftarrow> getParent h b;
     xLess \<leftarrow> isLessThanParent h b;
     dr \<leftarrow> getRightChild h d;
     h \<leftarrow> setLeftChild b dr h;
     nl \<leftarrow> getLeftChild h node;
     h \<leftarrow> setRightChild b nl h;
     h \<leftarrow> setRightChild a (Some c) h;
     h \<leftarrow> setLeftChild d (Some a) h;
     h \<leftarrow> setRightChild d (Some b) h;
     h \<leftarrow> setBlack c h;
     (h, root) \<leftarrow> (case x of
          Some xa \<Rightarrow> do { h \<leftarrow> setChild xa (Some d) xLess h; Some (h, m_root s) }
        | None \<Rightarrow> do { h \<leftarrow> setParent d None h; Some (h, Some d) });
     h \<leftarrow> delete_Node node h;
     Some (root, s\<lparr>heap := h, m_root := root\<rparr>)
   }"

definition remThreeRight :: "addr \<Rightarrow> 'k rbt \<Rightarrow> (ptr \<times> 'k rbt) option" where
  "remThreeRight node s = do {
     let h = heap s;
     bp \<leftarrow> getParent h node;
     b \<leftarrow> nonnull bp;
     _ \<leftarrow> asserting (isBlack h b);
     ap \<leftarrow> getLeftChild h b;
     a \<leftarrow> nonnull ap;
     _ \<leftarrow> asserting (isRed h a);
     fp \<leftarrow> getRightChild h a;
     f \<leftarrow> nonnull fp;
     _ \<leftarrow> asserting (isBlack h f);
     e \<leftarrow> getLeftChild h f;
     three \<leftarrow> nonnull_and_red h e;
     if three then remThreeRight_X_Three node s else remThreeRight_X_Two node s
   }"

text \<open>\<^verbatim>\<open>Node * rem( Node * node )\<close>: one step of the upward walk.\<close>

definition rem :: "addr \<Rightarrow> 'k rbt \<Rightarrow> (ptr \<times> 'k rbt) option" where
  "rem node s = do {
     let h = heap s;
     pp \<leftarrow> getParent h node;
     parent \<leftarrow> nonnull pp;
     pb \<leftarrow> isBlack h parent;
     nl \<leftarrow> isLessThanParent h node;
     if pb then
       if nl then remTwoLeft node s
       else do {
         leftChild \<leftarrow> getLeftChild h parent;
         three \<leftarrow> nonnull_and_red h leftChild;
         if three then remThreeRight node s else remTwoRight node s
       }
     else if nl then remThreeLeft node s
     else remThreeMiddle node s
   }"

text \<open>\<^verbatim>\<open>while( node != m_root ) node = rem( node )\<close>\<close>

partial_function (option) rem_loop :: "ptr \<Rightarrow> 'k rbt \<Rightarrow> 'k rbt option" where
  "rem_loop node s =
     (if node \<noteq> m_root s then do {
        n \<leftarrow> nonnull node;
        (node', s') \<leftarrow> rem n s;
        rem_loop node' s'
      } else Some s)"

declare rem_loop.simps [code]

subsection \<open>Removal: \<^verbatim>\<open>remove\<close>\<close>


text \<open>
  \<^verbatim>\<open>bool remove( Node * node, Node * & next )\<close>. The result is the returned flag, the
  final value of the reference argument \<open>next\<close>, and the tree. The decrement
  \<^verbatim>\<open>m_size -= 1\<close> is that of a 64-bit word: at 0 it wraps to \<open>2 ^ 64 - 1\<close>.
\<close>

definition remove_node :: "addr \<Rightarrow> 'k rbt \<Rightarrow> (bool \<times> ptr \<times> 'k rbt) option" where
  "remove_node node s = do {
     let size = m_size s - 1;
     let h = heap s;
     let root = m_root s;
     next \<leftarrow> getNextLargestChild h node;
     (h, root) \<leftarrow> (case next of None \<Rightarrow> Some (h, root)
        | Some nx \<Rightarrow> do {
            h \<leftarrow> swap node nx h;
            Some (h, if Some node = root then next else root)
          });
     parent \<leftarrow> getParent h node;
     left \<leftarrow> getLeftChild h node;
     case parent of
       Some p \<Rightarrow> do {
         nl \<leftarrow> isLessThanParent h node;
         next \<leftarrow> (if nl then Some parent else getNextLargestParent h p);
         nb \<leftarrow> isBlack h node;
         if nb then do {
           three \<leftarrow> nonnull_and_red h left;
           if three then do {
             l \<leftarrow> nonnull left;
             ll \<leftarrow> getLeftChild h l;
             _ \<leftarrow> assert (ll = None);
             h \<leftarrow> setChild p left nl h;
             h \<leftarrow> setBlack l h;
             h \<leftarrow> delete_Node node h;
             Some (True, next, \<lparr>heap = h, m_root = root, m_size = size\<rparr>)
           } else do {
             _ \<leftarrow> assert (Some node \<noteq> root);
             s' \<leftarrow> rem_loop (Some node) \<lparr>heap = h, m_root = root, m_size = size\<rparr>;
             Some (True, next, s')
           }
         } else do {
           _ \<leftarrow> assert (left = None);
           h \<leftarrow> Node_setLeftChild p None h;
           h \<leftarrow> delete_Node node h;
           Some (True, next, \<lparr>heap = h, m_root = root, m_size = size\<rparr>)
         }
       }
     | None \<Rightarrow> do {
         _ \<leftarrow> asserting (isBlack h node);
         three \<leftarrow> nonnull_and_red h left;
         h \<leftarrow> (if three then do {
                l \<leftarrow> nonnull left;
                _ \<leftarrow> assert (size = 1);
                h \<leftarrow> setParent l None h;
                setBlack l h
              } else Some h);
         h \<leftarrow> delete_Node node h;
         Some (True, next, \<lparr>heap = h, m_root = left, m_size = size\<rparr>)
       }
   }"

text \<open>\<^verbatim>\<open>bool remove( KeyT const & key, Node * & next )\<close>, called with \<open>next\<close> null.\<close>

definition remove :: "'k::linorder \<Rightarrow> 'k rbt \<Rightarrow> (bool \<times> ptr \<times> 'k rbt) option" where
  "remove key s = do {
     node \<leftarrow> find key s;
     case node of None \<Rightarrow> Some (False, None, s)
     | Some n \<Rightarrow> remove_node n s
   }"

subsection \<open>The checker: \<^verbatim>\<open>validate\<close>\<close>

text \<open>The loop \<^verbatim>\<open>while( node != next ) { node = next; next = node->getPrevious(); }\<close>.\<close>

partial_function (option) validate_smallest :: "'k heap \<Rightarrow> addr \<Rightarrow> addr \<Rightarrow> addr option" where
  "validate_smallest h node next =
     (if node \<noteq> next then do {
        next' \<leftarrow> getPrevious h next;
        validate_smallest h next next'
      } else Some node)"

declare validate_smallest.simps [code]

text \<open>
  The checks of one iteration of the main loop on \<open>node\<close>: \<open>Some False\<close> where the
  source executes \<^verbatim>\<open>return false\<close>, \<open>Some True\<close> where it reaches the end of the body.
\<close>

definition validate_node :: "'k::linorder heap \<Rightarrow> addr \<Rightarrow> bool option" where
  "validate_node h node = do {
     parent \<leftarrow> getParent h node;
     left \<leftarrow> getLeftChild h node;
     right \<leftarrow> getRightChild h node;
     lessThan' \<leftarrow> isLessThanParent h node;
     black \<leftarrow> isBlack h node;
     key \<leftarrow> getKey h node;
     ordered \<leftarrow> (case parent of None \<Rightarrow> Some True
        | Some p \<Rightarrow> do {
            pk \<leftarrow> getKey h p;
            Some (if lessThan' then key < pk else \<not> key < pk)
          });
     if \<not> ordered then Some False
     else do {
       redOk \<leftarrow> (if \<not> black then
            (case parent of None \<Rightarrow> Some False
             | Some p \<Rightarrow> do {
                 pb \<leftarrow> isBlack h p;
                 pk \<leftarrow> getKey h p;
                 Some (pb \<and> lessThan' \<and> key < pk)
               })
          else Some True);
       if \<not> redOk then Some False
       else do {
         leftOk \<leftarrow> (case left of None \<Rightarrow> Some True
            | Some l \<Rightarrow> do {
                lred \<leftarrow> isRed h l;
                if lred then
                  (case right of None \<Rightarrow> Some True
                   | Some _ \<Rightarrow> do {
                       ll \<leftarrow> getLeftChild h l;
                       lr \<leftarrow> getRightChild h l;
                       Some (ll \<noteq> None \<and> lr \<noteq> None)
                     })
                else Some (right \<noteq> None)
              });
         if \<not> leftOk then Some False
         else Some (\<not> (right \<noteq> None \<and> left = None))
       }
     }
   }"

text \<open>The main loop \<^verbatim>\<open>while( node != next ) { ...; node = next; next = node->getNext(); }\<close>.\<close>

partial_function (option) validate_loop :: "'k::linorder heap \<Rightarrow> addr \<Rightarrow> addr \<Rightarrow> bool option" where
  "validate_loop h node next =
     (if node \<noteq> next then do {
        ok \<leftarrow> validate_node h node;
        if ok then do {
          next' \<leftarrow> getNext h next;
          validate_loop h next next'
        } else Some False
      } else Some True)"

declare validate_loop.simps [code]

definition validate :: "'k::linorder rbt \<Rightarrow> bool option" where
  "validate s =
     (case m_root s of None \<Rightarrow> Some True
      | Some root \<Rightarrow> do {
          let h = heap s;
          black \<leftarrow> isBlack h root;
          if \<not> black then Some False
          else do {
            next \<leftarrow> getPrevious h root;
            node \<leftarrow> validate_smallest h root next;
            next \<leftarrow> getNext h node;
            validate_loop h node next
          }
        })"

definition getSize :: "'k rbt \<Rightarrow> 64 word" where
  "getSize s = m_size s"

subsection \<open>In-order traversal by a caller\<close>

text \<open>
  A caller iterates with \<^verbatim>\<open>getNext\<close>, which returns the node itself when there is no
  successor: \<open>successors h node\<close> lists the nodes from \<open>node\<close> on, up to and including
  the node at which \<^verbatim>\<open>getNext\<close> returns its argument. A full traversal starts at the
  leftmost node under the root.
\<close>

partial_function (option) successors :: "'k heap \<Rightarrow> addr \<Rightarrow> addr list option" where
  "successors h node = do {
     next \<leftarrow> getNext h node;
     if next = node then Some [node]
     else do { rest \<leftarrow> successors h next; Some (node # rest) }
   }"

declare successors.simps [code]

fun keys_of :: "'k heap \<Rightarrow> addr list \<Rightarrow> 'k list option" where
  "keys_of h [] = Some []"
| "keys_of h (a # as) = do { k \<leftarrow> getKey h a; ks \<leftarrow> keys_of h as; Some (k # ks) }"

definition traversal :: "'k rbt \<Rightarrow> addr list option" where
  "traversal s =
     (case m_root s of None \<Rightarrow> Some []
      | Some root \<Rightarrow> do { first \<leftarrow> leftmost (heap s) root; successors (heap s) first })"

definition inorder_keys :: "'k rbt \<Rightarrow> 'k list option" where
  "inorder_keys s = do { as \<leftarrow> traversal s; keys_of (heap s) as }"

text \<open>Successive \<^verbatim>\<open>add\<close> calls, the \<open>i\<close>-th new node allocated at the \<open>i\<close>-th address.\<close>

fun add_all :: "('k::linorder \<times> addr) list \<Rightarrow> 'k rbt \<Rightarrow> 'k rbt option" where
  "add_all [] s = Some s"
| "add_all ((k, a) # kas) s = do { (_, _, s') \<leftarrow> add k a s; add_all kas s' }"

subsection \<open>Concrete trees used below\<close>

definition root_black :: "'k rbt \<Rightarrow> bool option" where
  "root_black s = (case m_root s of None \<Rightarrow> Some True | Some r \<Rightarrow> isBlack (heap s) r)"

text \<open>The keys 10, 20, 5, 15, 25, 3, 8 inserted in this order, at the addresses 1 to 7.\<close>

definition scenario_adds :: "(int \<times> addr) list" where
  "scenario_adds = [(10, 1), (20, 2), (5, 3), (15, 4), (25, 5), (3, 6), (8, 7)]"

text \<open>The keys 1 to 5 inserted in ascending order, key \<open>i\<close> at address \<open>i\<close>.\<close>

definition ascending_adds :: "(int \<times> addr) list" where
  "ascending_adds = [(1, 1), (2, 2), (3, 3), (4, 4), (5, 5)]"



text \<open>The tree after \<^verbatim>\<open>add( 10 )\<close> and \<^verbatim>\<open>add( 5 )\<close>: the black root 10 with the red left child 5.\<close>

definition leaf_three_node :: "int rbt" where
  "leaf_three_node = \<lparr>heap = (\<lambda>_. None)
      (1 \<mapsto> \<lparr>m_left = Some 2, m_right = None, m_parent = None, m_type = 0, m_key = 10\<rparr>,
       2 \<mapsto> \<lparr>m_left = None, m_right = None, m_parent = Some 1, m_type = 3, m_key = 5\<rparr>),
     m_root = Some 1, m_size = 2\<rparr>"

text \<open>
  A store built by hand: the black root 10 at address 1 with the red left child 5 at
  address 2, which has no children, and the black right child 20 at address 3.
\<close>

definition red_leaf_beside_right_child :: "int rbt" where
  "red_leaf_beside_right_child = \<lparr>heap = (\<lambda>_. None)
      (1 \<mapsto> \<lparr>m_left = Some 2, m_right = Some 3, m_parent = None, m_type = 0, m_key = 10\<rparr>,
       2 \<mapsto> \<lparr>m_left = None, m_right = None, m_parent = Some 1, m_type = 3, m_key = 5\<rparr>,
       3 \<mapsto> \<lparr>m_left = None, m_right = None, m_parent = Some 1, m_type = 0, m_key = 20\<rparr>),
     m_root = Some 1, m_size = 3\<rparr>"

section \<open>The tree a store represents\<close>

text \<open>
  A binary tree of nodes, each with its address, its colour (\<open>True\<close> is red) and its key.
  \<open>tree_at h t p par rel\<close> says that in the store \<open>h\<close> the pointer \<open>p\<close> leads to the tree
  \<open>t\<close>, whose root has the parent pointer \<open>par\<close> and, if that is not null, the relation
  bit \<open>rel\<close> (\<open>True\<close> is \<^verbatim>\<open>LESS_THAN_PARENT\<close>); below the root every child points back to
  its parent and carries the relation bit of its side.
\<close>

datatype 'k tree = Lf | Nd "'k tree" addr bool 'k "'k tree"

fun addrs :: "'k tree \<Rightarrow> addr list" where
  "addrs Lf = []"
| "addrs (Nd l a c k r) = addrs l @ a # addrs r"

fun keys :: "'k tree \<Rightarrow> 'k list" where
  "keys Lf = []"
| "keys (Nd l a c k r) = keys l @ k # keys r"

fun tree_at :: "'k heap \<Rightarrow> 'k tree \<Rightarrow> ptr \<Rightarrow> ptr \<Rightarrow> bool \<Rightarrow> bool" where
  "tree_at h Lf p par rel = (p = None)"
| "tree_at h (Nd l a c k r) p par rel =
     (p = Some a \<and>
      (case h a of None \<Rightarrow> False
       | Some n \<Rightarrow> m_key n = k \<and> flagRed n = c \<and> m_parent n = par
           \<and> (par = None \<or> flagLess n = rel)
           \<and> tree_at h l (m_left n) (Some a) True
           \<and> tree_at h r (m_right n) (Some a) False))"

text \<open>The search of \<^verbatim>\<open>find\<close> on the tree: the address of the node it stops at.\<close>

fun lookup :: "'k::linorder tree \<Rightarrow> 'k \<Rightarrow> ptr" where
  "lookup Lf x = None"
| "lookup (Nd l a c k r) x =
     (if x < k then lookup l x else if k < x then lookup r x else Some a)"

text \<open>
  The tree object represents \<open>t\<close>: the root pointer leads to \<open>t\<close>, no node occurs twice,
  the live nodes are exactly the nodes of \<open>t\<close>, and \<^verbatim>\<open>m_size\<close> is their number (as a
  64-bit word).
\<close>

definition rbt_at :: "'k rbt \<Rightarrow> 'k tree \<Rightarrow> bool" where
  "rbt_at s t = (tree_at (heap s) t (m_root s) None False \<and> distinct (addrs t)
     \<and> dom (heap s) = set (addrs t) \<and> m_size s = of_nat (length (addrs t)))"

text \<open>A well-formed tree object: the store represents some binary tree.\<close>

definition well_formed :: "'k rbt \<Rightarrow> bool" where
  "well_formed s = (\<exists>t. rbt_at s t)"

text \<open>The keys of the live nodes.\<close>

definition live_keys :: "'k rbt \<Rightarrow> 'k set" where
  "live_keys s = {k. \<exists>a n. heap s a = Some n \<and> m_key n = k}"

text \<open>
  A search tree: the store represents a tree whose keys increase strictly from left to
  right.
\<close>

definition search_tree :: "'k::linorder rbt \<Rightarrow> bool" where
  "search_tree s = (\<exists>t. rbt_at s t \<and> sorted_wrt (<) (keys t))"

subsection \<open>Paths\<close>

text \<open>
  A path from a position in the tree up to the root is a list of frames, nearest first.
  \<open>Frame left a c k sib\<close> is the node \<open>a\<close> seen from its left child (\<open>left\<close>) or from its
  right child, with the subtree \<open>sib\<close> on the other side.
\<close>

datatype 'k frame = Frame bool addr bool 'k "'k tree"

fun plug :: "'k tree \<Rightarrow> 'k frame list \<Rightarrow> 'k tree" where
  "plug t [] = t"
| "plug t (Frame left a c k sib # fs) =
     (if left then plug (Nd t a c k sib) fs else plug (Nd sib a c k t) fs)"

fun hpar :: "'k frame list \<Rightarrow> ptr" where
  "hpar [] = None"
| "hpar (Frame left a c k sib # fs) = Some a"

fun hrel :: "'k frame list \<Rightarrow> bool" where
  "hrel [] = False"
| "hrel (Frame left a c k sib # fs) = left"

fun slot :: "'k heap \<Rightarrow> 'k frame list \<Rightarrow> ptr \<Rightarrow> bool" where
  "slot h [] p = True"
| "slot h (Frame left a c k sib # fs) p =
     (case h a of None \<Rightarrow> False | Some n \<Rightarrow> (if left then m_left n else m_right n) = p)"

fun ctx_at :: "'k heap \<Rightarrow> 'k frame list \<Rightarrow> bool" where
  "ctx_at h [] = True"
| "ctx_at h (Frame left a c k sib # fs) =
     (case h a of None \<Rightarrow> False
      | Some n \<Rightarrow> m_key n = k \<and> flagRed n = c \<and> m_parent n = hpar fs
          \<and> (fs = [] \<or> flagLess n = hrel fs)
          \<and> tree_at h sib (if left then m_right n else m_left n) (Some a) (\<not> left)
          \<and> slot h fs (Some a) \<and> ctx_at h fs)"

fun addrs_before :: "'k frame list \<Rightarrow> addr list" where
  "addrs_before [] = []"
| "addrs_before (Frame left a c k sib # fs) =
     (if left then addrs_before fs else addrs_before fs @ addrs sib @ [a])"

fun addrs_after :: "'k frame list \<Rightarrow> addr list" where
  "addrs_after [] = []"
| "addrs_after (Frame left a c k sib # fs) =
     (if left then a # addrs sib @ addrs_after fs else addrs_after fs)"

fun top :: "'k frame list \<Rightarrow> ptr \<Rightarrow> ptr" where
  "top [] p = p"
| "top (Frame left a c k sib # fs) p = top fs (Some a)"

section \<open>Basic facts\<close>

subsection \<open>The flag byte\<close>

lemma flagRed_bit: "flagRed n = bit (m_type n) 0"
  by (simp add: flagRed_def RED_def RED_INDEX_def word_gt_0 bit_iff_and_push_bit_not_eq_0)

lemma flagLess_bit: "flagLess n = bit (m_type n) 1"
  unfolding flagLess_def LESS_def LESS_INDEX_def word_gt_0
  using bit_iff_and_push_bit_not_eq_0 [of "m_type n" 1] by simp

lemma flagRed_putRed [simp]: "flagRed (putRed b n) = b"
  by (simp add: flagRed_bit putRed_def RED_def RED_INDEX_def bit_simps)

lemma flagLess_putLess [simp]: "flagLess (putLess b n) = b"
  by (simp add: flagLess_bit putLess_def LESS_def LESS_INDEX_def bit_simps)

lemma flagLess_putRed [simp]: "flagLess (putRed b n) = flagLess n"
  by (simp add: flagLess_bit putRed_def RED_def RED_INDEX_def bit_simps)

lemma flagRed_putLess [simp]: "flagRed (putLess b n) = flagRed n"
  by (simp add: flagRed_bit putLess_def LESS_def LESS_INDEX_def bit_simps)

lemma putRed_fields [simp]:
  "m_left (putRed b n) = m_left n" "m_right (putRed b n) = m_right n"
  "m_parent (putRed b n) = m_parent n" "m_key (putRed b n) = m_key n"
  by (simp_all add: putRed_def)

lemma putLess_fields [simp]:
  "m_left (putLess b n) = m_left n" "m_right (putLess b n) = m_right n"
  "m_parent (putLess b n) = m_parent n" "m_key (putLess b n) = m_key n"
  by (simp_all add: putLess_def)

lemma flag_field_update [simp]:
  "flagRed (n\<lparr>m_left := x\<rparr>) = flagRed n" "flagRed (n\<lparr>m_right := x\<rparr>) = flagRed n"
  "flagRed (n\<lparr>m_parent := x\<rparr>) = flagRed n"
  "flagLess (n\<lparr>m_left := x\<rparr>) = flagLess n" "flagLess (n\<lparr>m_right := x\<rparr>) = flagLess n"
  "flagLess (n\<lparr>m_parent := x\<rparr>) = flagLess n"
  by (simp_all add: flagRed_def flagLess_def)

lemma flag_Node [simp]: "flagRed (Node k) = False" "flagLess (Node k) = False"
  by (simp_all add: flagRed_def flagLess_def Node_def)

lemma Node_fields [simp]:
  "m_left (Node k) = None" "m_right (Node k) = None" "m_parent (Node k) = None"
  "m_key (Node k) = k"
  by (simp_all add: Node_def)

subsection \<open>Nodes of a represented tree\<close>

text \<open>The defining equations with the node of the store named.\<close>

lemma tree_at_Nd:
  "tree_at h (Nd l a c k r) p par rel =
     (p = Some a \<and>
      (\<exists>n. h a = Some n \<and> m_key n = k \<and> flagRed n = c \<and> m_parent n = par
          \<and> (par = None \<or> flagLess n = rel)
          \<and> tree_at h l (m_left n) (Some a) True
          \<and> tree_at h r (m_right n) (Some a) False))"
  by (auto split: option.splits)

lemma slot_Cons:
  "slot h (Frame left a c k sib # fs) p =
     (\<exists>n. h a = Some n \<and> (if left then m_left n else m_right n) = p)"
  by (auto split: option.splits)

lemma hpar_None [simp]: "hpar fs = None \<longleftrightarrow> fs = []"
  by (cases fs rule: hpar.cases) simp_all

lemma ctx_at_Cons:
  "ctx_at h (Frame left a c k sib # fs) =
     (\<exists>n. h a = Some n \<and> m_key n = k \<and> flagRed n = c \<and> m_parent n = hpar fs
          \<and> (fs = [] \<or> flagLess n = hrel fs)
          \<and> tree_at h sib (if left then m_right n else m_left n) (Some a) (\<not> left)
          \<and> slot h fs (Some a) \<and> ctx_at h fs)"
  by (auto split: option.splits)

declare tree_at.simps(2) [simp del] slot.simps(2) [simp del] ctx_at.simps(2) [simp del]
declare tree_at_Nd [simp] slot_Cons [simp] ctx_at_Cons [simp]

lemma tree_at_root_rel: "tree_at h t p None rel = tree_at h t p None rel'"
  by (cases t) simp_all

lemma tree_at_live:
  "tree_at h t p par rel \<Longrightarrow> a \<in> set (addrs t)
   \<Longrightarrow> \<exists>n. h a = Some n \<and> m_key n \<in> set (keys t)"
proof (induction t arbitrary: p par rel)
  case Lf
  then show ?case by simp
next
  case (Nd l b c x r)
  from Nd.prems(1) obtain n where n: "h b = Some n" "m_key n = x"
    and l: "tree_at h l (m_left n) (Some b) True" and r: "tree_at h r (m_right n) (Some b) False"
    by auto
  from Nd.prems(2) consider "a \<in> set (addrs l)" | "a = b" | "a \<in> set (addrs r)" by auto
  then show ?case
  proof cases
    case 1
    from Nd.IH(1) [OF l 1] show ?thesis by auto
  next
    case 2
    with n show ?thesis by auto
  next
    case 3
    from Nd.IH(2) [OF r 3] show ?thesis by auto
  qed
qed

lemma tree_at_keys:
  "tree_at h t p par rel \<Longrightarrow> k \<in> set (keys t)
   \<Longrightarrow> \<exists>a n. a \<in> set (addrs t) \<and> h a = Some n \<and> m_key n = k"
proof (induction t arbitrary: p par rel)
  case Lf
  then show ?case by simp
next
  case (Nd l b c x r)
  from Nd.prems(1) obtain n where n: "h b = Some n" "m_key n = x"
    and l: "tree_at h l (m_left n) (Some b) True" and r: "tree_at h r (m_right n) (Some b) False"
    by auto
  from Nd.prems(2) consider "k \<in> set (keys l)" | "k = x" | "k \<in> set (keys r)" by auto
  then show ?case
  proof cases
    case 1
    from Nd.IH(1) [OF l 1] show ?thesis by auto
  next
    case 2
    with n show ?thesis by auto
  next
    case 3
    from Nd.IH(2) [OF r 3] show ?thesis by auto
  qed
qed

lemma live_keys_rbt_at: "rbt_at s t \<Longrightarrow> live_keys s = set (keys t)"
proof -
  assume r: "rbt_at s t"
  then have t: "tree_at (heap s) t (m_root s) None False" and d: "dom (heap s) = set (addrs t)"
    by (simp_all add: rbt_at_def)
  show ?thesis
  proof (rule set_eqI)
    fix k
    show "k \<in> live_keys s \<longleftrightarrow> k \<in> set (keys t)"
    proof
      assume "k \<in> live_keys s"
      then obtain a n where a: "heap s a = Some n" "m_key n = k"
        by (auto simp: live_keys_def)
      then have "a \<in> set (addrs t)" using d by auto
      from tree_at_live [OF t this] a show "k \<in> set (keys t)" by auto
    next
      assume "k \<in> set (keys t)"
      from tree_at_keys [OF t this] show "k \<in> live_keys s"
        by (auto simp: live_keys_def)
    qed
  qed
qed

subsection \<open>Lookup\<close>

lemma find_loop_tree: "tree_at h t p par rel \<Longrightarrow> find_loop h x p = Some (lookup t x)"
proof (induction t arbitrary: p par rel)
  case Lf
  then show ?case by (subst find_loop.simps) simp
next
  case (Nd l a c k r)
  from Nd.prems obtain n where p: "p = Some a" and n: "h a = Some n" "m_key n = k"
    and l: "tree_at h l (m_left n) (Some a) True" and r: "tree_at h r (m_right n) (Some a) False"
    by auto
  from Nd.IH(1) [OF l] Nd.IH(2) [OF r] p n show ?case
    by (subst find_loop.simps) (simp add: getKey_def getLeftChild_def getRightChild_def rd_def)
qed

lemma find_nearest_loop_found:
  "tree_at h t p par rel \<Longrightarrow> lookup t x = Some a
   \<Longrightarrow> find_nearest_loop h x p nearest lt = Some (True, Some a, True)"
proof (induction t arbitrary: p par rel nearest lt)
  case Lf
  then show ?case by simp
next
  case (Nd l b c k r)
  from Nd.prems(1) obtain n where p: "p = Some b" and n: "h b = Some n" "m_key n = k"
    and l: "tree_at h l (m_left n) (Some b) True" and r: "tree_at h r (m_right n) (Some b) False"
    by auto
  consider "x < k" | "k < x" "\<not> x < k" | "\<not> x < k" "\<not> k < x"
    by (cases x k rule: linorder_cases) auto
  then show ?case
  proof cases
    case 1
    with Nd.prems(2) have "lookup l x = Some a" by simp
    from Nd.IH(1) [OF l this] 1 p n show ?thesis
      by (subst find_nearest_loop.simps) (simp add: getKey_def getLeftChild_def rd_def)
  next
    case 2
    with Nd.prems(2) have "lookup r x = Some a" by simp
    from Nd.IH(2) [OF r this] 2 p n show ?thesis
      by (subst find_nearest_loop.simps)
        (simp add: getKey_def getLeftChild_def getRightChild_def rd_def)
  next
    case 3
    with Nd.prems(2) have "a = b" by simp
    with 3 p n show ?thesis
      by (subst find_nearest_loop.simps) (simp add: getKey_def rd_def)
  qed
qed

lemma lookup_None: "sorted_wrt (<) (keys t) \<Longrightarrow> lookup t x = None \<longleftrightarrow> x \<notin> set (keys t)"
  by (induction t) (auto simp: sorted_wrt_append)

lemma lookup_Some:
  "tree_at h t p par rel \<Longrightarrow> lookup t x = Some a \<Longrightarrow> \<exists>n. h a = Some n \<and> m_key n = x"
proof (induction t arbitrary: p par rel)
  case Lf
  then show ?case by simp
next
  case (Nd l b c k r)
  from Nd.prems(1) obtain n where n: "h b = Some n" "m_key n = k"
    and l: "tree_at h l (m_left n) (Some b) True" and r: "tree_at h r (m_right n) (Some b) False"
    by auto
  consider "x < k" | "k < x" "\<not> x < k" | "\<not> x < k" "\<not> k < x"
    by (cases x k rule: linorder_cases) auto
  then show ?case
  proof cases
    case 1
    with Nd.prems(2) Nd.IH(1) [OF l] show ?thesis by simp
  next
    case 2
    with Nd.prems(2) Nd.IH(2) [OF r] show ?thesis by simp
  next
    case 3
    with Nd.prems(2) n show ?thesis by auto
  qed
qed

subsection \<open>The first step of \<^verbatim>\<open>remove\<close>\<close>


section \<open>Navigation on a represented tree\<close>

lemma addrs_plug: "addrs (plug t fs) = addrs_before fs @ addrs t @ addrs_after fs"
proof (induction fs arbitrary: t)
  case Nil
  then show ?case by simp
next
  case (Cons f fs)
  then show ?case by (cases f) simp
qed


lemma leftmost_tree: "tree_at h t (Some a) par rel \<Longrightarrow> leftmost h a = Some (hd (addrs t))"
proof (induction t arbitrary: a par rel)
  case Lf
  then show ?case by simp
next
  case (Nd l b c k r)
  from Nd.prems obtain n where [simp]: "a = b" and n: "h b = Some n"
    and l: "tree_at h l (m_left n) (Some b) True"
    by (auto split: option.splits)
  show ?case
  proof (cases l)
    case Lf
    with l n show ?thesis by (subst leftmost.simps) (simp add: getLeftChild_def rd_def)
  next
    case (Nd ll d lc lk lr)
    with l have ml: "m_left n = Some d" by simp
    from Nd.IH(1) [OF l [unfolded ml]] have "leftmost h d = Some (hd (addrs l))" .
    with n ml Nd show ?thesis
      by (subst leftmost.simps) (simp add: getLeftChild_def rd_def hd_append)
  qed
qed

lemma rightmost_tree: "tree_at h t (Some a) par rel \<Longrightarrow> rightmost h a = Some (last (addrs t))"
proof (induction t arbitrary: a par rel)
  case Lf
  then show ?case by simp
next
  case (Nd l b c k r)
  from Nd.prems obtain n where [simp]: "a = b" and n: "h b = Some n"
    and r: "tree_at h r (m_right n) (Some b) False"
    by (auto split: option.splits)
  show ?case
  proof (cases r)
    case Lf
    with r n show ?thesis by (subst rightmost.simps) (simp add: getRightChild_def rd_def)
  next
    case (Nd rl d rc rk rr)
    with r have mr: "m_right n = Some d" by simp
    from Nd.IH(2) [OF r [unfolded mr]] have "rightmost h d = Some (last (addrs r))" .
    with n mr Nd show ?thesis by (subst rightmost.simps) (simp add: getRightChild_def rd_def)
  qed
qed

lemma next_up_ctx:
  "ctx_at h fs \<Longrightarrow> h node = Some n \<Longrightarrow> m_parent n = hpar fs \<Longrightarrow> fs = [] \<or> flagLess n = hrel fs
   \<Longrightarrow> next_up h this node = Some (case addrs_after fs of [] \<Rightarrow> this | b # _ \<Rightarrow> b)"
proof (induction fs arbitrary: node n)
  case Nil
  then show ?case by (subst next_up.simps) (simp add: getParent_def rd_def)
next
  case (Cons f fs)
  obtain left a c k sib where f: "f = Frame left a c k sib" by (cases f)
  from Cons.prems(1) f obtain na where na: "h a = Some na" "m_parent na = hpar fs"
    "fs = [] \<or> flagLess na = hrel fs" "ctx_at h fs"
    by (auto split: option.splits)
  from Cons.prems f have p: "m_parent n = Some a" "flagLess n = left" by auto
  show ?case
  proof (cases left)
    case True
    with p Cons.prems(2) f show ?thesis
      by (subst next_up.simps) (simp add: getParent_def isLessThanParent_def rd_def)
  next
    case False
    from Cons.IH [OF na(4) na(1) na(2) na(3)]
    have "next_up h this a = Some (case addrs_after fs of [] \<Rightarrow> this | b # _ \<Rightarrow> b)" .
    with False p Cons.prems(2) f show ?thesis
      by (subst next_up.simps) (simp add: getParent_def isLessThanParent_def rd_def)
  qed
qed

lemma previous_up_ctx:
  "ctx_at h fs \<Longrightarrow> h node = Some n \<Longrightarrow> m_parent n = hpar fs \<Longrightarrow> fs = [] \<or> flagLess n = hrel fs
   \<Longrightarrow> previous_up h this node
       = Some (if addrs_before fs = [] then this else last (addrs_before fs))"
proof (induction fs arbitrary: node n)
  case Nil
  then show ?case by (subst previous_up.simps) (simp add: getParent_def rd_def)
next
  case (Cons f fs)
  obtain left a c k sib where f: "f = Frame left a c k sib" by (cases f)
  from Cons.prems(1) f obtain na where na: "h a = Some na" "m_parent na = hpar fs"
    "fs = [] \<or> flagLess na = hrel fs" "ctx_at h fs"
    by (auto split: option.splits)
  from Cons.prems f have p: "m_parent n = Some a" "flagLess n = left" by auto
  show ?case
  proof (cases left)
    case False
    with p Cons.prems(2) f show ?thesis
      by (subst previous_up.simps) (simp add: getParent_def isGreaterThanParent_def rd_def)
  next
    case True
    from Cons.IH [OF na(4) na(1) na(2) na(3)]
    have "previous_up h this a
        = Some (if addrs_before fs = [] then this else last (addrs_before fs))" .
    with True p Cons.prems(2) f show ?thesis
      by (subst previous_up.simps) (simp add: getParent_def isGreaterThanParent_def rd_def)
  qed
qed

lemma tree_at_decompose:
  "tree_at h t p (hpar fs0) (hrel fs0) \<Longrightarrow> ctx_at h fs0 \<Longrightarrow> slot h fs0 p \<Longrightarrow> a \<in> set (addrs t)
   \<Longrightarrow> \<exists>l c k r fs. plug t fs0 = plug (Nd l a c k r) fs
         \<and> tree_at h (Nd l a c k r) (Some a) (hpar fs) (hrel fs) \<and> ctx_at h fs
         \<and> slot h fs (Some a)"
proof (induction t arbitrary: p fs0)
  case Lf
  then show ?case by simp
next
  case (Nd l b c k r)
  from Nd.prems(1) obtain n where p: "p = Some b" and n: "h b = Some n" "m_key n = k"
    "flagRed n = c" "m_parent n = hpar fs0" "fs0 = [] \<or> flagLess n = hrel fs0"
    and l: "tree_at h l (m_left n) (Some b) True" and r: "tree_at h r (m_right n) (Some b) False"
    by (auto split: option.splits)
  from Nd.prems(4) consider "a = b" | "a \<in> set (addrs l)" | "a \<in> set (addrs r)" by auto
  then show ?case
  proof cases
    case 1
    with Nd.prems p show ?thesis by blast
  next
    case 2
    let ?fs = "Frame True b c k r # fs0"
    have "tree_at h l (m_left n) (hpar ?fs) (hrel ?fs)" using l by simp
    moreover have "ctx_at h ?fs" using n r Nd.prems(2,3) p by simp
    moreover have "slot h ?fs (m_left n)" using n by simp
    ultimately obtain l' c' k' r' fs where
      "plug l ?fs = plug (Nd l' a c' k' r') fs"
      "tree_at h (Nd l' a c' k' r') (Some a) (hpar fs) (hrel fs)" "ctx_at h fs"
      "slot h fs (Some a)"
      using Nd.IH(1) [of "m_left n" ?fs] 2 by blast
    then show ?thesis by (intro exI [of _ l'] exI [of _ c'] exI [of _ k'] exI [of _ r'] exI [of _ fs]) simp
  next
    case 3
    let ?fs = "Frame False b c k l # fs0"
    have "tree_at h r (m_right n) (hpar ?fs) (hrel ?fs)" using r by simp
    moreover have "ctx_at h ?fs" using n l Nd.prems(2,3) p by simp
    moreover have "slot h ?fs (m_right n)" using n by simp
    ultimately obtain l' c' k' r' fs where
      "plug r ?fs = plug (Nd l' a c' k' r') fs"
      "tree_at h (Nd l' a c' k' r') (Some a) (hpar fs) (hrel fs)" "ctx_at h fs"
      "slot h fs (Some a)"
      using Nd.IH(2) [of "m_right n" ?fs] 3 by blast
    then show ?thesis by (intro exI [of _ l'] exI [of _ c'] exI [of _ k'] exI [of _ r'] exI [of _ fs]) simp
  qed
qed


lemma tree_at_root_decompose:
  assumes "tree_at h t root None rel0" and "a \<in> set (addrs t)"
  shows "\<exists>l c k r fs. t = plug (Nd l a c k r) fs
         \<and> tree_at h (Nd l a c k r) (Some a) (hpar fs) (hrel fs) \<and> ctx_at h fs
         \<and> slot h fs (Some a)"
proof -
  from assms(1) have "tree_at h t root (hpar []) (hrel [])"
    using tree_at_root_rel [of h t root rel0 False] by simp
  from tree_at_decompose [OF this _ _ assms(2)] show ?thesis by simp
qed

lemma takeWhile_upto: "a \<notin> set xs \<Longrightarrow> takeWhile (\<lambda>x. x \<noteq> a) (xs @ a # ys) = xs"
  by (induction xs) auto

lemma split_unique:
  assumes "distinct (xs @ a # ys)" and "xs @ a # ys = xs' @ a # ys'"
  shows "xs = xs' \<and> ys = ys'"
proof -
  from assms have d: "distinct (xs' @ a # ys')" by simp
  from assms(1) have "takeWhile (\<lambda>x. x \<noteq> a) (xs @ a # ys) = xs"
    by (simp add: takeWhile_upto)
  moreover from d have "takeWhile (\<lambda>x. x \<noteq> a) (xs' @ a # ys') = xs'"
    by (simp add: takeWhile_upto)
  ultimately have "xs = xs'" using assms(2) by simp
  with assms(2) show ?thesis by simp
qed

lemma tree_at_keys_map:
  "tree_at h t p par rel \<Longrightarrow> keys t = map (\<lambda>a. m_key (the (h a))) (addrs t)"
  by (induction t arbitrary: p par rel) (auto split: option.splits)

lemma keys_of_append:
  "keys_of h (xs @ ys) = do { k1 \<leftarrow> keys_of h xs; k2 \<leftarrow> keys_of h ys; Some (k1 @ k2) }"
  by (induction xs) (auto simp: getKey_def rd_def split: option.splits bind_splits)

lemma keys_of_tree: "tree_at h t p par rel \<Longrightarrow> keys_of h (addrs t) = Some (keys t)"
  by (induction t arbitrary: p par rel)
    (auto simp: keys_of_append getKey_def rd_def split: option.splits)

text \<open>The successor and the predecessor in the in-order list of addresses.\<close>

lemma getNext_tree:
  assumes t: "tree_at h t root None rel0" and d: "distinct (addrs t)"
    and s: "addrs t = xs @ a # ys"
  shows "getNext h a = Some (case ys of [] \<Rightarrow> a | b # _ \<Rightarrow> b)"
proof -
  have "a \<in> set (addrs t)" using s by simp
  from tree_at_root_decompose [OF t this]
  obtain l c k r fs where p: "t = plug (Nd l a c k r) fs"
    and sub: "tree_at h (Nd l a c k r) (Some a) (hpar fs) (hrel fs)" and c: "ctx_at h fs"
    by blast
  from p s have "xs @ a # ys = (addrs_before fs @ addrs l) @ a # (addrs r @ addrs_after fs)"
    by (simp add: addrs_plug)
  with split_unique [of xs a ys] d s have ys: "ys = addrs r @ addrs_after fs" by simp
  from sub obtain n where n: "h a = Some n" "m_parent n = hpar fs"
    "fs = [] \<or> flagLess n = hrel fs" and r: "tree_at h r (m_right n) (Some a) False"
    by (auto split: option.splits)
  show ?thesis
  proof (cases r)
    case Lf
    with r have "m_right n = None" by simp
    with n next_up_ctx [OF c n(1) n(2) n(3), of a] ys Lf show ?thesis
      by (simp add: getNext_def getRightChild_def rd_def)
  next
    case (Nd rl b rc rk rr)
    with r have mr: "m_right n = Some b" by simp
    from leftmost_tree [OF r [unfolded mr]] have "leftmost h b = Some (hd (addrs r))" .
    with n mr ys Nd show ?thesis
      by (cases "addrs rl") (simp_all add: getNext_def getRightChild_def rd_def)
  qed
qed

lemma getPrevious_tree:
  assumes t: "tree_at h t root None rel0" and d: "distinct (addrs t)"
    and s: "addrs t = xs @ a # ys"
  shows "getPrevious h a = Some (if xs = [] then a else last xs)"
proof -
  have "a \<in> set (addrs t)" using s by simp
  from tree_at_root_decompose [OF t this]
  obtain l c k r fs where p: "t = plug (Nd l a c k r) fs"
    and sub: "tree_at h (Nd l a c k r) (Some a) (hpar fs) (hrel fs)" and c: "ctx_at h fs"
    by blast
  from p s have "xs @ a # ys = (addrs_before fs @ addrs l) @ a # (addrs r @ addrs_after fs)"
    by (simp add: addrs_plug)
  with split_unique [of xs a ys] d s have xs: "xs = addrs_before fs @ addrs l" by simp
  from sub obtain n where n: "h a = Some n" "m_parent n = hpar fs"
    "fs = [] \<or> flagLess n = hrel fs" and l: "tree_at h l (m_left n) (Some a) True"
    by (auto split: option.splits)
  show ?thesis
  proof (cases l)
    case Lf
    with l have "m_left n = None" by simp
    with n previous_up_ctx [OF c n(1) n(2) n(3), of a] xs Lf show ?thesis
      by (simp add: getPrevious_def getLeftChild_def rd_def)
  next
    case (Nd ll b lc lk lr)
    with l have ml: "m_left n = Some b" by simp
    from rightmost_tree [OF l [unfolded ml]] have "rightmost h b = Some (last (addrs l))" .
    with n ml xs Nd show ?thesis
      by (simp add: getPrevious_def getLeftChild_def rd_def)
  qed
qed

lemma successors_tree:
  assumes t: "tree_at h t root None rel0" and d: "distinct (addrs t)"
  shows "addrs t = xs @ a # ys \<Longrightarrow> successors h a = Some (a # ys)"
proof (induction ys arbitrary: xs a)
  case Nil
  from getNext_tree [OF t d Nil] show ?case
    by (subst successors.simps) simp
next
  case (Cons b ys)
  from getNext_tree [OF t d Cons.prems] have g: "getNext h a = Some b" by simp
  from d Cons.prems have ne: "b \<noteq> a" by auto
  from Cons.prems have "addrs t = (xs @ [a]) @ b # ys" by simp
  from Cons.IH [OF this] have "successors h b = Some (b # ys)" .
  with g ne show ?case by (subst successors.simps) simp
qed

lemma traversal_tree:
  assumes "rbt_at s t"
  shows "traversal s = Some (addrs t)" and "inorder_keys s = Some (keys t)"
proof -
  from assms have t: "tree_at (heap s) t (m_root s) None False" and d: "distinct (addrs t)"
    by (simp_all add: rbt_at_def)
  show tr: "traversal s = Some (addrs t)"
  proof (cases t)
    case Lf
    with t show ?thesis by (simp add: traversal_def)
  next
    case (Nd l a c k r)
    with t have root: "m_root s = Some a" by simp
    from leftmost_tree [OF t [unfolded root]]
    have lm: "leftmost (heap s) a = Some (hd (addrs t))" .
    have "addrs t \<noteq> []" using Nd by simp
    then obtain b ys where bys: "addrs t = [] @ b # ys" by (cases "addrs t") auto
    from successors_tree [OF t d bys] bys lm root show ?thesis
      by (simp add: traversal_def)
  qed
  from keys_of_tree [OF t] tr show "inorder_keys s = Some (keys t)"
    by (simp add: inorder_keys_def)
qed

lemma sorted_split_greater:
  "sorted_wrt (<) (ks1 @ k # ks2) \<Longrightarrow> {x \<in> set (ks1 @ k # ks2). k < x} = set ks2"
  for k :: "'k::linorder"
  by (auto simp: sorted_wrt_append)

lemma sorted_split_less:
  "sorted_wrt (<) (ks1 @ k # ks2) \<Longrightarrow> {x \<in> set (ks1 @ k # ks2). x < k} = set ks1"
  for k :: "'k::linorder"
  by (auto simp: sorted_wrt_append)

lemma Min_sorted_Cons: "sorted_wrt (<) (x # xs) \<Longrightarrow> Min (set (x # xs)) = x"
  for x :: "'k::linorder"
  by (rule Min_eqI) auto

lemma Max_sorted_snoc: "sorted_wrt (<) (xs @ [x]) \<Longrightarrow> Max (set (xs @ [x])) = x"
  for x :: "'k::linorder"
  by (rule Max_eqI) (auto simp: sorted_wrt_append)

lemma rbt_at_split:
  assumes "rbt_at s t" and "heap s a = Some n"
  shows "\<exists>xs ys. addrs t = xs @ a # ys \<and> keys t = map (\<lambda>a. m_key (the (heap s a))) xs @ m_key n # map (\<lambda>a. m_key (the (heap s a))) ys"
proof -
  from assms have t: "tree_at (heap s) t (m_root s) None False" and "a \<in> set (addrs t)"
    by (auto simp: rbt_at_def)
  then obtain xs ys where xy: "addrs t = xs @ a # ys" by (auto simp: in_set_conv_decomp)
  with tree_at_keys_map [OF t] assms(2) show ?thesis by auto
qed

section \<open>The walk of \<^verbatim>\<open>validate\<close>\<close>

lemma validate_smallest_tree:
  assumes t: "tree_at h t root None rel0" and d: "distinct (addrs t)"
  shows "addrs t = xs @ a # ys
    \<Longrightarrow> validate_smallest h a (if xs = [] then a else last xs) = Some (hd (addrs t))"
proof (induction xs arbitrary: a ys rule: rev_induct)
  case Nil
  then show ?case by (subst validate_smallest.simps) simp
next
  case (snoc b xs)
  from snoc.prems have s: "addrs t = xs @ b # (a # ys)" by simp
  from d snoc.prems have ne: "a \<noteq> b" by auto
  from getPrevious_tree [OF t d s]
  have g: "getPrevious h b = Some (if xs = [] then b else last xs)" .
  from snoc.IH [OF s] g ne show ?case
    by (subst validate_smallest.simps) simp
qed

lemma validate_node_total:
  assumes t: "tree_at h t root None rel0" and a: "a \<in> set (addrs t)"
  shows "\<exists>b. validate_node h a = Some b"
proof -
  from tree_at_root_decompose [OF t a]
  obtain l c k r fs where sub: "tree_at h (Nd l a c k r) (Some a) (hpar fs) (hrel fs)"
    and c: "ctx_at h fs" by blast
  from sub obtain n where n: "h a = Some n" "m_parent n = hpar fs"
    and l: "tree_at h l (m_left n) (Some a) True" by auto
  have par: "\<exists>pn. m_parent n = None \<or> (\<exists>p. m_parent n = Some p \<and> h p = Some pn)"
  proof (cases fs)
    case Nil
    with n show ?thesis by simp
  next
    case (Cons f fs')
    obtain left p pc pk sib where "f = Frame left p pc pk sib" by (cases f)
    with Cons c n show ?thesis by auto
  qed
  have lft: "\<exists>ln. m_left n = None \<or> (\<exists>p. m_left n = Some p \<and> h p = Some ln)"
    using l by (cases l) auto
  from par lft n(1) show ?thesis
    by (auto simp: validate_node_def getParent_def getLeftChild_def getRightChild_def
        isLessThanParent_def isBlack_def isRed_def getKey_def rd_def Let_def
        split: option.splits)
qed

lemma validate_loop_tree:
  assumes t: "tree_at h t root None rel0" and d: "distinct (addrs t)"
  shows "addrs t = xs @ a # ys
    \<Longrightarrow> validate_loop h a (case ys of [] \<Rightarrow> a | b # _ \<Rightarrow> b)
        = Some (\<forall>x \<in> set (butlast (a # ys)). validate_node h x = Some True)"
proof (induction ys arbitrary: xs a)
  case Nil
  then show ?case by (subst validate_loop.simps) simp
next
  case (Cons b ys)
  from Cons.prems have s: "addrs t = (xs @ [a]) @ b # ys" by simp
  from d Cons.prems have ne: "a \<noteq> b" by auto
  from s getNext_tree [OF t d s]
  have g: "getNext h b = Some (case ys of [] \<Rightarrow> b | c # _ \<Rightarrow> c)" by simp
  from Cons.prems have "a \<in> set (addrs t)" by simp
  from validate_node_total [OF t this] obtain v where v: "validate_node h a = Some v" by blast
  from Cons.IH [OF s] g ne v show ?case
    by (subst validate_loop.simps) auto
qed

lemma validate_tree:
  assumes r: "rbt_at s t" and a: "a \<in> set (butlast (addrs t))"
    and v: "validate_node (heap s) a \<noteq> Some True"
  shows "validate s = Some False"
proof -
  from r have t: "tree_at (heap s) t (m_root s) None False" and d: "distinct (addrs t)"
    by (simp_all add: rbt_at_def)
  from a have "t \<noteq> Lf" by auto
  then obtain l b c k r' where nd: "t = Nd l b c k r'" by (cases t) auto
  with t obtain n where root: "m_root s = Some b" and n: "heap s b = Some n" by auto
  have "b \<in> set (addrs t)" using nd by simp
  then obtain xs ys where xy: "addrs t = xs @ b # ys" by (auto simp: in_set_conv_decomp)
  from getPrevious_tree [OF t d xy]
  have gp: "getPrevious (heap s) b = Some (if xs = [] then b else last xs)" .
  from validate_smallest_tree [OF t d xy]
  have sm: "validate_smallest (heap s) b (if xs = [] then b else last xs) = Some (hd (addrs t))" .
  from nd obtain f fs where ft: "addrs t = [] @ f # fs" by (cases "addrs t") auto
  from getNext_tree [OF t d ft]
  have gn: "getNext (heap s) f = Some (case fs of [] \<Rightarrow> f | b # _ \<Rightarrow> b)" .
  from validate_loop_tree [OF t d ft]
  have lp: "validate_loop (heap s) f (case fs of [] \<Rightarrow> f | b # _ \<Rightarrow> b)
        = Some (\<forall>x \<in> set (butlast (f # fs)). validate_node (heap s) x = Some True)" .
  from a v ft have "\<not> (\<forall>x \<in> set (butlast (f # fs)). validate_node (heap s) x = Some True)"
    by auto
  with lp gn sm gp root n ft show ?thesis
    by (simp add: validate_def isBlack_def rd_def Let_def)
qed

lemma has_right_not_last:
  assumes t: "tree_at h t root None rel0" and d: "distinct (addrs t)"
    and n: "h a = Some n" "m_right n \<noteq> None" and a: "a \<in> set (addrs t)"
  shows "a \<in> set (butlast (addrs t))"
proof -
  from tree_at_root_decompose [OF t a]
  obtain l c k r fs where p: "t = plug (Nd l a c k r) fs"
    and sub: "tree_at h (Nd l a c k r) (Some a) (hpar fs) (hrel fs)" by blast
  from sub n have "r \<noteq> Lf" by auto
  then have "addrs r \<noteq> []" by (cases r) auto
  with p show ?thesis by (simp add: addrs_plug butlast_append)
qed

section \<open>The claims\<close>

text \<open>
  C2. Starting from the empty tree, inserting 10, 20, 5, 15, 25, 3, 8 in this order gives
  a tree whose in-order traversal is 3, 5, 8, 10, 15, 20, 25, whose root is black, whose
  size is 7 and on which \<^verbatim>\<open>validate\<close> returns true. Removing 10 then gives size 6, the
  traversal 3, 5, 8, 15, 20, 25, \<^verbatim>\<open>validate\<close> true, and \<^verbatim>\<open>find( 10 )\<close> returns null.
\<close>

theorem C2_scenario:
  "map_option (\<lambda>s. (inorder_keys s, m_root s \<noteq> None, root_black s, getSize s, validate s))
       (add_all scenario_adds RedBlackTree)
     = Some (Some [3, 5, 8, 10, 15, 20, 25], True, Some True, 7, Some True)
   \<and> ((add_all scenario_adds RedBlackTree \<bind> remove 10)
         \<bind> (\<lambda>(removed, next, s).
               Some (removed, getSize s, inorder_keys s, validate s, find 10 s)))
     = Some (True, 6, Some [3, 5, 8, 15, 20, 25], Some True, Some None)"
  by code_simp

text \<open>
  The tree \<open>leaf_three_node\<close> is the search tree with the black root 10 and its red left
  child 5.
\<close>

lemma leaf_three_node_rbt_at:
  "rbt_at leaf_three_node (Nd (Nd Lf 2 True 5 Lf) 1 False 10 Lf)"
  by (simp add: rbt_at_def leaf_three_node_def flagRed_def flagLess_def RED_def LESS_def
      RED_INDEX_def LESS_INDEX_def)

lemma leaf_three_node_search_tree: "search_tree leaf_three_node"
  unfolding search_tree_def
proof (intro exI conjI)
  show "rbt_at leaf_three_node (Nd (Nd Lf 2 True 5 Lf) 1 False 10 Lf)"
    by (rule leaf_three_node_rbt_at)
  show "sorted_wrt (<) (keys (Nd (Nd Lf 2 True (5::int) Lf) 1 False 10 Lf))"
    by simp
qed

lemma leaf_three_node_live_keys: "live_keys leaf_three_node = {5, 10}"
  by (auto simp: live_keys_rbt_at [OF leaf_three_node_rbt_at])

text \<open>
  C3. In a search tree, \<^verbatim>\<open>getNext\<close> of a live node returns the node that holds the
  smallest key above the node's key, and the node itself if there is no such key;
  \<^verbatim>\<open>getPrevious\<close> returns the node that holds the largest key below, and the node
  itself if there is none; and the traversal that starts at the leftmost node and follows
  \<^verbatim>\<open>getNext\<close> until it returns its argument visits all keys, in strictly increasing
  order.
\<close>

theorem C3_navigation:
  assumes "search_tree s" and "heap s a = Some n"
  shows "(\<exists>b nb. getNext (heap s) a = Some b \<and> heap s b = Some nb \<and>
            (if \<exists>k \<in> live_keys s. m_key n < k
             then m_key nb = Min {k \<in> live_keys s. m_key n < k} else b = a))
       \<and> (\<exists>b nb. getPrevious (heap s) a = Some b \<and> heap s b = Some nb \<and>
            (if \<exists>k \<in> live_keys s. k < m_key n
             then m_key nb = Max {k \<in> live_keys s. k < m_key n} else b = a))
       \<and> (\<exists>ks. inorder_keys s = Some ks \<and> sorted_wrt (<) ks \<and> set ks = live_keys s)"
proof -
  from assms(1) obtain t where r: "rbt_at s t" and srt: "sorted_wrt (<) (keys t)"
    by (auto simp: search_tree_def)
  from r have t: "tree_at (heap s) t (m_root s) None False" and d: "distinct (addrs t)"
    by (simp_all add: rbt_at_def)
  let ?kf = "\<lambda>a. m_key (the (heap s a))"
  from rbt_at_split [OF r assms(2)] obtain xs ys where xy: "addrs t = xs @ a # ys"
    and ks: "keys t = map ?kf xs @ m_key n # map ?kf ys" by blast
  note lk = live_keys_rbt_at [OF r]
  from srt ks have gr: "{k \<in> live_keys s. m_key n < k} = set (map ?kf ys)"
    using sorted_split_greater [of "map ?kf xs" "m_key n" "map ?kf ys"] lk by simp
  from srt ks have le: "{k \<in> live_keys s. k < m_key n} = set (map ?kf xs)"
    using sorted_split_less [of "map ?kf xs" "m_key n" "map ?kf ys"] lk by simp
  have live: "\<And>b. b \<in> set (addrs t) \<Longrightarrow> \<exists>nb. heap s b = Some nb"
    using tree_at_live [OF t] by blast
  have nxt: "\<exists>b nb. getNext (heap s) a = Some b \<and> heap s b = Some nb \<and>
            (if \<exists>k \<in> live_keys s. m_key n < k
             then m_key nb = Min {k \<in> live_keys s. m_key n < k} else b = a)"
  proof (cases ys)
    case Nil
    with gr have "\<not> (\<exists>k \<in> live_keys s. m_key n < k)" by auto
    with getNext_tree [OF t d xy] Nil assms(2) show ?thesis by simp
  next
    case (Cons b ys')
    from xy Cons live [of b] obtain nb where nb: "heap s b = Some nb" by auto
    from srt ks Cons have "sorted_wrt (<) (?kf b # map ?kf ys')"
      by (simp add: sorted_wrt_append)
    from Min_sorted_Cons [OF this] gr Cons nb
    have "Min {k \<in> live_keys s. m_key n < k} = m_key nb" by simp
    moreover from gr Cons nb have "\<exists>k \<in> live_keys s. m_key n < k" by auto
    ultimately show ?thesis using getNext_tree [OF t d xy] Cons nb by simp
  qed
  have prv: "\<exists>b nb. getPrevious (heap s) a = Some b \<and> heap s b = Some nb \<and>
            (if \<exists>k \<in> live_keys s. k < m_key n
             then m_key nb = Max {k \<in> live_keys s. k < m_key n} else b = a)"
  proof (cases xs rule: rev_cases)
    case Nil
    with le have "\<not> (\<exists>k \<in> live_keys s. k < m_key n)" by auto
    with getPrevious_tree [OF t d xy] Nil assms(2) show ?thesis by simp
  next
    case (snoc xs' b)
    from xy snoc live [of b] obtain nb where nb: "heap s b = Some nb" by auto
    from srt ks snoc have "sorted_wrt (<) (map ?kf xs' @ [?kf b])"
      by (simp add: sorted_wrt_append)
    from Max_sorted_snoc [OF this] le snoc nb
    have "Max {k \<in> live_keys s. k < m_key n} = m_key nb" by simp
    moreover from le snoc nb have "\<exists>k \<in> live_keys s. k < m_key n" by auto
    ultimately show ?thesis using getPrevious_tree [OF t d xy] snoc nb by simp
  qed
  from traversal_tree(2) [OF r] srt lk
  have "\<exists>ks. inorder_keys s = Some ks \<and> sorted_wrt (<) ks \<and> set ks = live_keys s" by simp
  with nxt prv show ?thesis by blast
qed

theorem C3_navigation_witness:
  "(\<exists>b nb. getNext (heap leaf_three_node) 2 = Some b \<and> heap leaf_three_node b = Some nb \<and>
            (if \<exists>k \<in> live_keys leaf_three_node. 5 < k
             then m_key nb = Min {k \<in> live_keys leaf_three_node. 5 < k} else b = 2))
       \<and> (\<exists>b nb. getPrevious (heap leaf_three_node) 2 = Some b \<and> heap leaf_three_node b = Some nb \<and>
            (if \<exists>k \<in> live_keys leaf_three_node. k < 5
             then m_key nb = Max {k \<in> live_keys leaf_three_node. k < 5} else b = 2))
       \<and> (\<exists>ks. inorder_keys leaf_three_node = Some ks \<and> sorted_wrt (<) ks \<and> set ks = live_keys leaf_three_node)"
proof -
  have "heap leaf_three_node 2
      = Some \<lparr>m_left = None, m_right = None, m_parent = Some 1, m_type = 3, m_key = 5\<rparr>"
    by (simp add: leaf_three_node_def)
  from C3_navigation [OF leaf_three_node_search_tree this] show ?thesis
    by (simp only: node.select_convs)
qed

text \<open>
  C4. In a search tree, \<^verbatim>\<open>add\<close> of a key that is present returns the node that holds
  the key with \<open>inserted = false\<close>, and the tree (store, root and size) is unchanged.
\<close>

theorem C4_add_present:
  assumes "search_tree s" and "key \<in> live_keys s"
  shows "\<exists>a n. add key new s = Some (False, Some a, s) \<and> heap s a = Some n \<and> m_key n = key"
proof -
  from assms(1) obtain t where t: "rbt_at s t" and srt: "sorted_wrt (<) (keys t)"
    by (auto simp: search_tree_def)
  from t have ta: "tree_at (heap s) t (m_root s) None False" by (simp add: rbt_at_def)
  from assms(2) live_keys_rbt_at [OF t] have "key \<in> set (keys t)" by simp
  with lookup_None [OF srt, of key] obtain a where a: "lookup t key = Some a" by auto
  from lookup_Some [OF ta a] obtain n where n: "heap s a = Some n" "m_key n = key" by auto
  from a have "t \<noteq> Lf" by auto
  with ta have "m_root s \<noteq> None" by (cases t) auto
  with find_nearest_loop_found [OF ta a] n show ?thesis
    by (auto simp: add_def find_nearest_def)
qed

theorem C4_add_present_witness:
  "\<exists>a n. add 5 3 leaf_three_node = Some (False, Some a, leaf_three_node)
     \<and> heap leaf_three_node a = Some n \<and> m_key n = 5"
  using C4_add_present [of leaf_three_node 5 3]
  by (simp add: leaf_three_node_search_tree leaf_three_node_live_keys)

text \<open>
  C5. In a search tree, \<^verbatim>\<open>remove\<close> of a key that is not present returns false and the
  tree (store, root and size) is unchanged.
\<close>

theorem C5_remove_absent:
  assumes "search_tree s" and "key \<notin> live_keys s"
  shows "remove key s = Some (False, None, s)"
proof -
  from assms(1) obtain t where t: "rbt_at s t" and srt: "sorted_wrt (<) (keys t)"
    by (auto simp: search_tree_def)
  from t have ta: "tree_at (heap s) t (m_root s) None False" by (simp add: rbt_at_def)
  from assms(2) live_keys_rbt_at [OF t] have "key \<notin> set (keys t)" by simp
  with lookup_None [OF srt] have "lookup t key = None" by simp
  with find_loop_tree [OF ta, of key] show ?thesis
    by (simp add: remove_def find_def)
qed

theorem C5_remove_absent_witness:
  "remove 7 leaf_three_node = Some (False, None, leaf_three_node)"
  using C5_remove_absent [of leaf_three_node 7]
  by (simp add: leaf_three_node_search_tree leaf_three_node_live_keys)

text \<open>
  C7, as stated, fails: after inserting 1, 2, 3, 4, 5 the node 4 has the red left child 2
  and the right child 5, whose left child is null, and \<^verbatim>\<open>validate\<close> returns true.
\<close>

theorem C7_counterexample:
  "(add_all ascending_adds RedBlackTree \<bind> (\<lambda>s. do {
       l \<leftarrow> getLeftChild (heap s) 4;
       left_is_red \<leftarrow> nonnull_and_red (heap s) l;
       r \<leftarrow> getRightChild (heap s) 4;
       ra \<leftarrow> nonnull r;
       rl \<leftarrow> getLeftChild (heap s) ra;
       v \<leftarrow> validate s;
       Some (left_is_red, r, rl, v) }))
   = Some (True, Some 5, None, True)"
  by code_simp

text \<open>
  C7, amended. For a node with a red left child and a right child, \<^verbatim>\<open>validate\<close> checks
  that the red left child has both of its children, not that the right child has a left
  child: on every well-formed tree in which some node has a right child and a red left
  child that lacks its left or its right child, \<^verbatim>\<open>validate\<close> returns false.
\<close>

theorem C7_validate_red_left_child:
  assumes "well_formed s" and "heap s a = Some n" and "m_right n \<noteq> None"
    and "m_left n = Some l" and "heap s l = Some ln" and "flagRed ln"
    and "m_left ln = None \<or> m_right ln = None"
  shows "validate s = Some False"
proof -
  from assms(1) obtain t where r: "rbt_at s t" by (auto simp: well_formed_def)
  then have t: "tree_at (heap s) t (m_root s) None False" and d: "distinct (addrs t)"
    and dm: "dom (heap s) = set (addrs t)"
    by (simp_all add: rbt_at_def)
  from assms(2) dm have a: "a \<in> set (addrs t)" by auto
  from has_right_not_last [OF t d assms(2,3) a] have nl: "a \<in> set (butlast (addrs t))" .
  have "validate_node (heap s) a \<noteq> Some True"
    using assms(2-7)
    by (auto simp: validate_node_def getParent_def getLeftChild_def getRightChild_def
        isLessThanParent_def isBlack_def isRed_def getKey_def rd_def Let_def
        split: option.splits bind_splits if_splits)
  from validate_tree [OF r nl this] show ?thesis .
qed

lemma red_leaf_beside_right_child_rbt_at:
  "rbt_at red_leaf_beside_right_child
     (Nd (Nd Lf 2 True 5 Lf) 1 False 10 (Nd Lf 3 False 20 Lf))"
  by (auto simp: rbt_at_def red_leaf_beside_right_child_def flagRed_def flagLess_def RED_def
      LESS_def RED_INDEX_def LESS_INDEX_def)

theorem C7_validate_red_left_child_witness:
  "validate red_leaf_beside_right_child = Some False"
proof -
  have wf: "well_formed red_leaf_beside_right_child"
    unfolding well_formed_def using red_leaf_beside_right_child_rbt_at by (rule exI)
  have n: "heap red_leaf_beside_right_child 1
      = Some \<lparr>m_left = Some 2, m_right = Some 3, m_parent = None, m_type = 0, m_key = 10\<rparr>"
    and ln: "heap red_leaf_beside_right_child 2
      = Some \<lparr>m_left = None, m_right = None, m_parent = Some 1, m_type = 3, m_key = 5\<rparr>"
    by (simp_all add: red_leaf_beside_right_child_def)
  show ?thesis
    by (rule C7_validate_red_left_child [OF wf n _ _ ln])
      (simp_all add: flagRed_def RED_def RED_INDEX_def)
qed




text \<open>
  C9 at the scenario tree: \<^verbatim>\<open>remove( 10, next )\<close> exchanges the node 10 with its successor
  15 and then overwrites \<open>next\<close>; it returns the node 20, although 15 is the smallest
  remaining key above 10.
\<close>

theorem C9_next_skips_successor:
  "((add_all scenario_adds RedBlackTree \<bind> remove 10)
      \<bind> (\<lambda>(removed, next, s). do {
            ks \<leftarrow> inorder_keys s;
            n \<leftarrow> nonnull next;
            k \<leftarrow> getKey (heap s) n;
            Some (removed, ks, k) }))
   = Some (True, [3, 5, 8, 15, 20, 25], 20)"
  by code_simp

end
